theory Spec2Isabelle
  imports Main
begin

unbundle bit_operations_syntax

section \<open>Strings as Python uses them\<close>

text \<open>
  Names, addresses and error messages are Python \<open>str\<close> values, modelled as
  \<open>string\<close>: the characters are the code points below 256. Case mapping is modelled
  on the ASCII letters; absent values (\<open>None\<close>) are \<open>None\<close> of an option type.
\<close>

text \<open>\<open>s.startswith(p)\<close>\<close>

fun startswith :: "string \<Rightarrow> string \<Rightarrow> bool" where
  "startswith s [] = True"
| "startswith [] (p # ps) = False"
| "startswith (c # cs) (p # ps) = (c = p \<and> startswith cs ps)"

text \<open>\<open>sub in s\<close>\<close>

fun contains :: "string \<Rightarrow> string \<Rightarrow> bool" where
  "contains sub [] = (sub = [])"
| "contains sub (c # cs) = (startswith (c # cs) sub \<or> contains sub cs)"

definition lowers :: string where
  "lowers = ''abcdefghijklmnopqrstuvwxyz''"

definition uppers :: string where
  "uppers = ''ABCDEFGHIJKLMNOPQRSTUVWXYZ''"

definition upper_char :: "char \<Rightarrow> char" where
  "upper_char c = (case map_of (zip lowers uppers) c of Some u \<Rightarrow> u | None \<Rightarrow> c)"

definition lower_char :: "char \<Rightarrow> char" where
  "lower_char c = (case map_of (zip uppers lowers) c of Some l \<Rightarrow> l | None \<Rightarrow> c)"

text \<open>\<open>s.upper()\<close> and \<open>s.lower()\<close>\<close>

definition upper :: "string \<Rightarrow> string" where
  "upper s = map upper_char s"

definition lower :: "string \<Rightarrow> string" where
  "lower s = map lower_char s"

text \<open>
  \<open>c.isspace()\<close>: among the code points below 256, the ASCII white space, the
  separators U+001C to U+001F, U+0085 (next line) and U+00A0 (no-break space).
\<close>

definition is_space :: "char \<Rightarrow> bool" where
  "is_space c = (c \<in> set [CHR '' '', CHR 0x09, CHR 0x0A, CHR 0x0B, CHR 0x0C, CHR 0x0D,
                           CHR 0x1C, CHR 0x1D, CHR 0x1E, CHR 0x1F, CHR 0x85, CHR 0xA0])"

text \<open>\<open>s.strip()\<close>\<close>

definition strip :: "string \<Rightarrow> string" where
  "strip s = rev (dropWhile is_space (rev (dropWhile is_space s)))"

text \<open>\<open>s.split('\n')\<close>: never the empty list.\<close>

fun split_lines :: "string \<Rightarrow> string list" where
  "split_lines [] = [[]]"
| "split_lines (c # cs) =
     (if c = CHR 0x0A then [] # split_lines cs
      else (case split_lines cs of [] \<Rightarrow> [[c]] | l # ls \<Rightarrow> (c # l) # ls))"

text \<open>Truth value of an optional string: \<open>None\<close> and \<open>''\<close> are false.\<close>

definition truthy :: "string option \<Rightarrow> bool" where
  "truthy a = (case a of None \<Rightarrow> False | Some s \<Rightarrow> s \<noteq> [])"

text \<open>\<open>str(x)\<close> of an optional string.\<close>

definition str_of :: "string option \<Rightarrow> string" where
  "str_of a = (case a of None \<Rightarrow> ''None'' | Some s \<Rightarrow> s)"


section \<open>The connector's state\<close>

datatype side = SLeft | SRight

text \<open>\<open>ConnectionState\<close> of \<open>utils.constants\<close>, by the member names the manager uses.\<close>

datatype connection_state = DISCONNECTED | SCANNING | CONNECTING | CONNECTED

text \<open>A \<open>BleakClient\<close>: the address it was built for and its \<open>is_connected\<close> flag.\<close>

record client =
  c_address :: string
  is_connected :: bool

datatype failure_class = NotFound | Timeout | Busy | OtherError

text \<open>
  What the manager does to the outside world, in order. Delays and timeouts are only
  handed on to \<open>asyncio.sleep\<close> and \<open>connect\<close>, never computed with; they are
  numbers of milliseconds here.
\<close>

datatype event =
    EvAttempt side nat
  | EvOpen side string nat
  | EvCloseClient side
  | EvNotify side
  | EvRetrySleep nat
  | EvSleep nat
  | EvClassified failure_class
  | EvReconnectAttempt side nat
  | EvSave
  | EvDiscover
  | EvPairing
  | EvStart
  | EvStop

text \<open>
  The fields of \<open>BLEManager\<close>, of its connector (\<open>left_client\<close>, \<open>right_client\<close>,
  \<open>_connection_quality\<close>), of the connector's config and of its state manager, with
  the config file (\<open>persisted\<close>, written by \<open>config.save()\<close>), the sequence of
  values given to \<open>set_connection_state\<close> (\<open>state_log\<close>) and the trace of events.
\<close>

record world =
  connection_state :: connection_state
  state_log :: "connection_state list"
  left_address :: "string option"
  right_address :: "string option"
  left_name :: "string option"
  right_name :: "string option"
  persisted :: "string option \<times> string option \<times> string option \<times> string option"
  reconnect_attempts :: int
  reconnect_delay :: nat
  connection_timeout :: nat
  heartbeat_interval :: nat
  left_client :: "client option"
  right_client :: "client option"
  connection_quality :: "side \<Rightarrow> (int option \<times> int) option"
  shutting_down :: bool
  error_count :: int
  last_error :: "string option"
  silent_mode :: bool
  last_heartbeat :: "nat option"
  monitoring_task :: bool
  command_manager_started :: bool
  trace :: "event list"

text \<open>\<open>BLEManager.__init__\<close>, on a connector with the given config and no clients.\<close>

definition init :: "string option \<Rightarrow> string option \<Rightarrow> string option \<Rightarrow> string option \<Rightarrow>
    int \<Rightarrow> nat \<Rightarrow> nat \<Rightarrow> nat \<Rightarrow> world" where
  "init la ra ln rn attempts delay timeout interval =
     \<lparr>connection_state = DISCONNECTED, state_log = [],
      left_address = la, right_address = ra, left_name = ln, right_name = rn,
      persisted = (la, ra, ln, rn),
      reconnect_attempts = attempts, reconnect_delay = delay, connection_timeout = timeout,
      heartbeat_interval = interval,
      left_client = None, right_client = None, connection_quality = (\<lambda>_. None),
      shutting_down = False, error_count = 0, last_error = None, silent_mode = False,
      last_heartbeat = None, monitoring_task = False, command_manager_started = False,
      trace = []\<rparr>"

definition set_connection_state :: "connection_state \<Rightarrow> world \<Rightarrow> world" where
  "set_connection_state c w = w\<lparr>connection_state := c, state_log := state_log w @ [c]\<rparr>"

definition emit :: "event list \<Rightarrow> world \<Rightarrow> world" where
  "emit evs w = w\<lparr>trace := trace w @ evs\<rparr>"

definition get_address :: "side \<Rightarrow> world \<Rightarrow> string option" where
  "get_address sd w = (case sd of SLeft \<Rightarrow> left_address w | SRight \<Rightarrow> right_address w)"

definition get_client :: "side \<Rightarrow> world \<Rightarrow> client option" where
  "get_client sd w = (case sd of SLeft \<Rightarrow> left_client w | SRight \<Rightarrow> right_client w)"

definition set_client :: "side \<Rightarrow> client option \<Rightarrow> world \<Rightarrow> world" where
  "set_client sd c w = (case sd of SLeft \<Rightarrow> w\<lparr>left_client := c\<rparr> | SRight \<Rightarrow> w\<lparr>right_client := c\<rparr>)"

text \<open>\<open>config.save()\<close> when it does not raise.\<close>

definition save :: "world \<Rightarrow> world" where
  "save w = emit [EvSave]
     (w\<lparr>persisted := (left_address w, right_address w, left_name w, right_name w)\<rparr>)"

text \<open>\<open>side.title()\<close>\<close>

definition title :: "side \<Rightarrow> string" where
  "title sd = (case sd of SLeft \<Rightarrow> ''Left'' | SRight \<Rightarrow> ''Right'')"

section \<open>\<open>_verify_connection\<close> and \<open>_connect_glass\<close>\<close>

text \<open>
  What the transport answers during one attempt of \<open>_connect_glass\<close>: the first
  \<open>connect\<close> (it returns, leaving \<open>is_connected\<close> as given, or raises with a message),
  the fallback \<open>connect\<close>, the three looks at the service table, whether
  \<open>start_notifications\<close> raises and whether \<open>disconnect\<close> of the unverified client
  raises.
\<close>

datatype open_result = Opened bool | OpenError string

datatype verify_try = ServiceMissing | CharacteristicMissing | Verified | VerifyError

record attempt_env =
  a_open :: open_result
  a_fallback :: open_result
  a_verify :: "nat \<Rightarrow> verify_try"
  a_notify :: "string option"
  a_disconnect :: "string option"

datatype attempt_outcome = Succeeded | Failed | Raised string

definition max_retries :: nat where
  "max_retries = 3"

text \<open>
  The \<open>for attempt in range(max_retries)\<close> loop of \<open>_verify_connection\<close>, from
  \<open>attempt\<close> on with \<open>n\<close> iterations left; the events are the one-second sleeps.
\<close>

fun verify_loop :: "(nat \<Rightarrow> verify_try) \<Rightarrow> nat \<Rightarrow> nat \<Rightarrow> bool \<times> event list" where
  "verify_loop v attempt 0 = (False, [])"
| "verify_loop v attempt (Suc n) =
     (case v attempt of
        Verified \<Rightarrow> (True, [])
      | ServiceMissing \<Rightarrow>
          if attempt < max_retries - 1 then verify_loop v (Suc attempt) n else (False, [])
      | CharacteristicMissing \<Rightarrow>
          if attempt < max_retries - 1 then verify_loop v (Suc attempt) n else (False, [])
      | VerifyError \<Rightarrow>
          if attempt < max_retries - 1
          then (let (ok, evs) = verify_loop v (Suc attempt) n in (ok, EvSleep 1000 # evs))
          else (False, []))"

definition verify_connection :: "(nat \<Rightarrow> verify_try) \<Rightarrow> bool \<times> event list" where
  "verify_connection v = verify_loop v 0 max_retries"

text \<open>The part of an attempt after \<open>connect\<close> has returned.\<close>

definition after_open :: "side \<Rightarrow> string \<Rightarrow> attempt_env \<Rightarrow> bool \<Rightarrow> world \<Rightarrow> attempt_outcome \<times> world" where
  "after_open sd address a connected w =
     (if connected then
        (let (ok, evs) = verify_connection (a_verify a); w1 = emit evs w in
         if ok then
           (let w2 = set_client sd (Some \<lparr>c_address = address, is_connected = True\<rparr>) w1;
                w3 = emit [EvNotify sd] w2
            in case a_notify a of None \<Rightarrow> (Succeeded, w3) | Some msg \<Rightarrow> (Raised msg, w3))
         else
           (let w2 = emit [EvCloseClient sd] w1
            in case a_disconnect a of None \<Rightarrow> (Failed, w2) | Some msg \<Rightarrow> (Raised msg, w2)))
      else (Failed, w))"

text \<open>The \<open>try\<close> body of one attempt, up to the sleep.\<close>

definition attempt_body :: "side \<Rightarrow> string \<Rightarrow> attempt_env \<Rightarrow> world \<Rightarrow> attempt_outcome \<times> world" where
  "attempt_body sd address a w =
     (let w1 = emit [EvOpen sd address (connection_timeout w)] w in
      case a_open a of
        Opened c \<Rightarrow> after_open sd address a c w1
      | OpenError msg \<Rightarrow>
          if contains ''not found'' (lower msg) then
            (let w2 = emit [EvOpen sd address 15000] w1 in
             case a_fallback a of
               Opened c \<Rightarrow> after_open sd address a c w2
             | OpenError alt \<Rightarrow> (Raised msg, w2))
          else (Raised msg, w1))"

text \<open>The classification of the \<open>except\<close> branch: it chooses the log line only.\<close>

definition classify :: "string \<Rightarrow> failure_class" where
  "classify error_msg =
     (if contains ''not found'' (lower error_msg) then NotFound
      else if contains ''timeout'' (lower error_msg) then Timeout
      else if contains ''already connected'' (lower error_msg) \<or> contains ''in use'' (lower error_msg)
      then Busy
      else OtherError)"

text \<open>\<open>if attempt < reconnect_attempts - 1: await asyncio.sleep(reconnect_delay)\<close>\<close>

definition retry_sleep :: "nat \<Rightarrow> world \<Rightarrow> world" where
  "retry_sleep attempt w =
     (if int attempt < reconnect_attempts w - 1 then emit [EvRetrySleep (reconnect_delay w)] w else w)"

text \<open>
  The \<open>for attempt in range(reconnect_attempts)\<close> loop of \<open>_connect_glass\<close>, from
  \<open>attempt\<close> on with \<open>n\<close> iterations left.
\<close>

fun connect_attempts :: "side \<Rightarrow> string \<Rightarrow> (nat \<Rightarrow> attempt_env) \<Rightarrow> nat \<Rightarrow> nat \<Rightarrow> world \<Rightarrow> bool \<times> world" where
  "connect_attempts sd address env attempt 0 w = (False, w)"
| "connect_attempts sd address env attempt (Suc n) w =
     (case attempt_body sd address (env attempt) (emit [EvAttempt sd attempt] w) of
        (Succeeded, w1) \<Rightarrow> (True, w1)
      | (Failed, w1) \<Rightarrow> connect_attempts sd address env (Suc attempt) n (retry_sleep attempt w1)
      | (Raised msg, w1) \<Rightarrow>
          connect_attempts sd address env (Suc attempt) n
            (retry_sleep attempt (emit [EvClassified (classify msg)] w1)))"

definition connect_glass :: "side \<Rightarrow> (nat \<Rightarrow> attempt_env) \<Rightarrow> world \<Rightarrow> bool \<times> world" where
  "connect_glass sd env w =
     (case get_address sd w of
        None \<Rightarrow> (False, w)
      | Some address \<Rightarrow>
          if address = [] then (False, w)
          else connect_attempts sd address env 0 (nat (reconnect_attempts w)) w)"


section \<open>\<open>_handle_disconnect\<close>\<close>

text \<open>\<open>self._error_count += 1; self._last_error = ...\<close>\<close>

definition record_error :: "string \<Rightarrow> world \<Rightarrow> world" where
  "record_error msg w = w\<lparr>error_count := error_count w + 1, last_error := Some msg\<rparr>"

text \<open>
  The \<open>for attempt in range(reconnect_attempts)\<close> loop of \<open>_handle_disconnect\<close>;
  \<open>env attempt\<close> is what the transport answers to the \<open>_connect_glass\<close> call of that
  iteration.
\<close>

fun reconnect_loop :: "side \<Rightarrow> (nat \<Rightarrow> nat \<Rightarrow> attempt_env) \<Rightarrow> nat \<Rightarrow> nat \<Rightarrow> world \<Rightarrow> bool \<times> world" where
  "reconnect_loop sd env attempt 0 w = (False, w)"
| "reconnect_loop sd env attempt (Suc n) w =
     (if shutting_down w then (False, w)
      else
        (case connect_glass sd (env attempt) (emit [EvReconnectAttempt sd attempt] w) of
           (True, w1) \<Rightarrow> (True, w1)
         | (False, w1) \<Rightarrow>
             reconnect_loop sd env (Suc attempt) n (emit [EvRetrySleep (reconnect_delay w1)] w1)))"

definition handle_disconnect :: "side \<Rightarrow> (nat \<Rightarrow> nat \<Rightarrow> attempt_env) \<Rightarrow> world \<Rightarrow> bool \<times> world" where
  "handle_disconnect sd env w =
     (if shutting_down w then (False, w)
      else reconnect_loop sd env 0 (nat (reconnect_attempts w))
             (record_error (title sd @ '' glass disconnected'') w))"

section \<open>\<open>_monitor_connection_quality\<close>\<close>

definition check_side :: "side \<Rightarrow> world \<Rightarrow> world" where
  "check_side sd w =
     (case get_client sd w of
        None \<Rightarrow> w
      | Some c \<Rightarrow> if \<not> is_connected c then record_error (title sd @ '' glass disconnected'') w else w)"

text \<open>
  The \<open>while not self._shutting_down\<close> loop, for at most \<open>fuel\<close> tests of its
  condition. The first component says whether the coroutine has returned; the second is
  the state it returned in, or the state reached when the fuel ran out.
\<close>

fun monitor_connection_quality :: "nat \<Rightarrow> world \<Rightarrow> bool \<times> world" where
  "monitor_connection_quality 0 w = (False, w)"
| "monitor_connection_quality (Suc fuel) w =
     (if shutting_down w then (True, w)
      else if shutting_down w then (True, w)
      else
        (let w1 = check_side SLeft w in
         if shutting_down w1 then (True, w1)
         else monitor_connection_quality fuel (emit [EvSleep 10000] (check_side SRight w1))))"

section \<open>\<open>_heartbeat_loop\<close>\<close>

definition heartbeat_frame :: "int \<Rightarrow> int list" where
  "heartbeat_frame seq = [0x25, 0x06, 0x00, seq, 0x04, seq]"

text \<open>A name between single quotes, as the message of an \<open>AttributeError\<close> shows it.\<close>

definition quoted :: "string \<Rightarrow> string" where
  "quoted s = CHR 0x27 # s @ [CHR 0x27]"

text \<open>
  \<open>self.send_command(client, data)\<close>. \<open>BLEManager\<close> defines no method
  \<open>send_command\<close> (the method that sends is \<open>send_heartbeat\<close>), \<open>__init__\<close> sets no
  attribute of that name and the class has no \<open>__getattr__\<close>: the attribute lookup
  raises \<open>AttributeError\<close>, whatever the client and the data, before anything reaches a
  client. \<open>Inl\<close> is the message of the exception.
\<close>

definition send_command :: "client option \<Rightarrow> int list \<Rightarrow> world \<Rightarrow> string + world" where
  "send_command c data w =
     Inl (quoted ''BLEManager'' @ '' object has no attribute '' @ quoted ''send_command'')"

text \<open>The \<open>except Exception\<close> branch of an iteration.\<close>

definition heartbeat_failed :: "string \<Rightarrow> world \<Rightarrow> world" where
  "heartbeat_failed msg w = emit [EvSleep 2000] (record_error (''Heartbeat failed: '' @ msg) w)"

text \<open>
  The body of \<open>while True\<close>, on the local \<open>seq\<close> and the state; \<open>now\<close> is what
  \<open>time.time()\<close> returns in this iteration.
\<close>

definition heartbeat_round :: "nat \<Rightarrow> int \<times> world \<Rightarrow> int \<times> world" where
  "heartbeat_round now sw =
     (case sw of (seq, w) \<Rightarrow>
        if left_client w \<noteq> None \<and> right_client w \<noteq> None then
          (let seq1 = (seq + 1) AND 0xFF;
               data = heartbeat_frame seq1
           in case send_command (left_client w) data w of
                Inl msg \<Rightarrow> (seq1, heartbeat_failed msg w)
              | Inr w1 \<Rightarrow>
                  (let w2 = emit [EvSleep 200] w1
                   in case send_command (right_client w2) data w2 of
                        Inl msg \<Rightarrow> (seq1, heartbeat_failed msg w2)
                      | Inr w3 \<Rightarrow>
                          (seq1, emit [EvSleep (heartbeat_interval w3)]
                                   (w3\<lparr>last_heartbeat := Some now\<rparr>))))
        else (seq, w))"

text \<open>
  The loop never returns; this is its state after one iteration for each clock reading
  of \<open>nows\<close>.
\<close>

definition heartbeat_loop :: "nat list \<Rightarrow> world \<Rightarrow> int \<times> world" where
  "heartbeat_loop nows w = foldl (\<lambda>sw now. heartbeat_round now sw) (0, w) nows"

section \<open>\<open>_update_connection_quality\<close> and \<open>get_status_data\<close>\<close>

definition update_connection_quality :: "side \<Rightarrow> int option \<Rightarrow> bool \<Rightarrow> world \<Rightarrow> world" where
  "update_connection_quality sd rssi error w =
     (let q0 = connection_quality w;
          q1 = (if q0 sd = None then q0(sd := Some (None, 0)) else q0);
          q2 = (if rssi \<noteq> None then q1(sd := map_option (\<lambda>(r, e). (rssi, e)) (q1 sd)) else q1);
          q3 = (if error then q2(sd := map_option (\<lambda>(r, e). (r, e + 1)) (q2 sd)) else q2)
      in w\<lparr>connection_quality := q3\<rparr>)"

record side_status =
  connected :: bool
  errors :: int
  status_last_error :: "string option"

record status_data =
  status_left :: side_status
  status_right :: side_status
  heartbeat :: "nat option"
  status_silent_mode :: bool

definition client_connected :: "client option \<Rightarrow> bool" where
  "client_connected c = (case c of None \<Rightarrow> False | Some cl \<Rightarrow> is_connected cl)"

definition get_status_data :: "world \<Rightarrow> status_data" where
  "get_status_data w =
     \<lparr>status_left = \<lparr>connected = client_connected (left_client w),
                     errors = error_count w, status_last_error = last_error w\<rparr>,
      status_right = \<lparr>connected = client_connected (right_client w),
                      errors = error_count w, status_last_error = last_error w\<rparr>,
      heartbeat = last_heartbeat w,
      status_silent_mode = silent_mode w\<rparr>"

section \<open>\<open>disconnect\<close>\<close>

text \<open>
  Whether \<open>command_manager.stop()\<close> and the \<open>disconnect()\<close> of each client raise
  (\<open>Some\<close> the message). A \<open>disconnect()\<close> that raises leaves the client as it was.
\<close>

record disconnect_env =
  de_stop :: "string option"
  de_left :: "string option"
  de_right :: "string option"

text \<open>
  One round of \<open>for side in ['left', 'right']\<close>; \<open>Inl\<close> is the state in which an
  exception left the \<open>try\<close> block.
\<close>

definition disconnect_side :: "side \<Rightarrow> string option \<Rightarrow> world \<Rightarrow> world + world" where
  "disconnect_side sd err w =
     (if client_connected (get_client sd w) then
        (case err of
           Some msg \<Rightarrow> Inl (emit [EvCloseClient sd] w)
         | None \<Rightarrow> Inr (set_client sd None (emit [EvCloseClient sd] w)))
      else Inr w)"

definition disconnect :: "disconnect_env \<Rightarrow> world \<Rightarrow> world" where
  "disconnect e w =
     (let w1 = w\<lparr>shutting_down := True\<rparr>;
          w2 = (if monitoring_task w1 then w1\<lparr>monitoring_task := False\<rparr> else w1);
          w3 = emit [EvStop] w2
      in case de_stop e of
           Some msg \<Rightarrow> w3
         | None \<Rightarrow>
             (case disconnect_side SLeft (de_left e) (w3\<lparr>command_manager_started := False\<rparr>) of
                Inl w4 \<Rightarrow> w4
              | Inr w4 \<Rightarrow>
                  (case disconnect_side SRight (de_right e) w4 of
                     Inl w5 \<Rightarrow> w5
                   | Inr w5 \<Rightarrow> set_connection_state DISCONNECTED w5)))"


section \<open>\<open>_get_windows_connected_g1_devices\<close>\<close>

text \<open>The result of a \<open>subprocess.run\<close>.\<close>

record proc =
  returncode :: int
  stdout :: string

text \<open>
  One line of the first query's output: the devices it appends, as (name, address).
  \<open>hasattr(config, 'left_address')\<close> is taken as true: \<open>connect_to_glasses\<close> reads
  the attribute without asking.
\<close>

definition parse_pnp_line :: "world \<Rightarrow> string \<Rightarrow> (string \<times> string option) list" where
  "parse_pnp_line w raw =
     (let line = strip raw in
      if line = [] \<or> startswith line ''Name'' \<or> startswith line ''----'' then []
      else if contains ''G1'' line \<or> contains ''Even'' line then
        (let name = strip line;
             address =
               (if contains ''CCF7207288DB'' line then Some ''CC:F7:20:72:88:DB''
                else if contains ''DAD8C8AF5258'' line then Some ''DA:D8:C8:AF:52:58''
                else if contains ''_L_'' (upper name) then left_address w
                else if contains ''_R_'' (upper name) then right_address w
                else None)
         in if truthy address then [(name, address)] else [])
      else [])"

text \<open>One line of the second (WMI) query's output.\<close>

definition parse_wmi_line :: "world \<Rightarrow> string \<Rightarrow> (string \<times> string option) list" where
  "parse_wmi_line w line =
     (if contains ''G1'' line \<or> contains ''Even'' line then
        (let name = strip line in
         if contains ''_L_'' (upper name) then [(name, left_address w)]
         else if contains ''_R_'' (upper name) then [(name, right_address w)]
         else [])
      else [])"

definition has_output :: "proc \<Rightarrow> bool" where
  "has_output r = (returncode r = 0 \<and> strip (stdout r) \<noteq> [])"

text \<open>
  \<open>ps\<close> and \<open>wmi\<close> are the results of the two queries, \<open>None\<close> when
  \<open>subprocess.run\<close> raises.
\<close>

definition get_windows_connected_g1_devices ::
    "proc option \<Rightarrow> proc option \<Rightarrow> world \<Rightarrow> (string \<times> string option) list" where
  "get_windows_connected_g1_devices ps wmi w =
     (case ps of
        None \<Rightarrow> []
      | Some r \<Rightarrow>
          (let devices =
                 (if has_output r
                  then concat (map (parse_pnp_line w) (split_lines (strip (stdout r))))
                  else [])
           in if devices = [] then
                (case wmi of
                   None \<Rightarrow> devices
                 | Some r2 \<Rightarrow>
                     if has_output r2
                     then devices @ concat (map (parse_wmi_line w) (split_lines (strip (stdout r2))))
                     else devices)
              else devices))"

section \<open>\<open>scan_for_glasses\<close>\<close>

text \<open>A \<open>BLEDevice\<close> of the scanner.\<close>

record bt_device =
  d_name :: "string option"
  d_address :: string

text \<open>
  What a scan meets: the two host queries, the result of \<open>BleakScanner.discover\<close>
  (\<open>None\<close> when it raises) and whether \<open>config.save()\<close> raises.
\<close>

record scan_env =
  se_ps :: "proc option"
  se_wmi :: "proc option"
  se_discover :: "bt_device list option"
  se_save :: "string option"

text \<open>Step 1: one device the host reports as connected.\<close>

definition assign_connected :: "bool \<times> bool \<times> world \<Rightarrow> string \<times> string option \<Rightarrow> bool \<times> bool \<times> world" where
  "assign_connected st dev =
     (case st of (left_found, right_found, w) \<Rightarrow>
      case dev of (name, address) \<Rightarrow>
        if contains ''_L_'' (upper name) \<or> contains ''LEFT'' (upper name) then
          (True, right_found, w\<lparr>left_address := address, left_name := Some name\<rparr>)
        else if contains ''_R_'' (upper name) \<or> contains ''RIGHT'' (upper name) then
          (left_found, True, w\<lparr>right_address := address, right_name := Some name\<rparr>)
        else (left_found, right_found, w))"

definition g1_patterns :: "string list" where
  "g1_patterns = [''_L_'', ''_R_'', ''G1'', ''Even'', ''LE-'']"

text \<open>\<open>device.name\<close> is set and holds one of the patterns.\<close>

definition is_g1 :: "bt_device \<Rightarrow> bool" where
  "is_g1 d = (case d_name d of
                None \<Rightarrow> False
              | Some name \<Rightarrow> name \<noteq> [] \<and> list_ex (\<lambda>pattern. contains pattern name) g1_patterns)"

definition named_left :: "bt_device \<Rightarrow> bool" where
  "named_left d = (contains ''_L_'' (str_of (d_name d)) \<or> contains ''Left'' (str_of (d_name d)))"

definition named_right :: "bt_device \<Rightarrow> bool" where
  "named_right d = (contains ''_R_'' (str_of (d_name d)) \<or> contains ''Right'' (str_of (d_name d)))"

definition assign_left :: "bt_device \<Rightarrow> world \<Rightarrow> world" where
  "assign_left d w = w\<lparr>left_address := Some (d_address d), left_name := d_name d\<rparr>"

definition assign_right :: "bt_device \<Rightarrow> world \<Rightarrow> world" where
  "assign_right d w = w\<lparr>right_address := Some (d_address d), right_name := d_name d\<rparr>"

text \<open>Step 2: one scanned device; the first component is \<open>g1_devices\<close>.\<close>

definition classify_device ::
    "bt_device list \<times> bool \<times> bool \<times> world \<Rightarrow> bt_device \<Rightarrow> bt_device list \<times> bool \<times> bool \<times> world" where
  "classify_device st d =
     (case st of (g1_devices, left_found, right_found, w) \<Rightarrow>
        if is_g1 d then
          (if \<not> left_found \<and> named_left d then (g1_devices @ [d], True, right_found, assign_left d w)
           else if \<not> right_found \<and> named_right d then (g1_devices @ [d], left_found, True, assign_right d w)
           else (g1_devices @ [d], left_found, right_found, w))
        else st)"

text \<open>Step 3: the sides still missing take the first devices not yet used.\<close>

definition arbitrate :: "bt_device list \<Rightarrow> bool \<times> bool \<times> world \<Rightarrow> bool \<times> bool \<times> world" where
  "arbitrate g1_devices st =
     (case st of (left_found, right_found, w) \<Rightarrow>
        if length g1_devices \<ge> 1 \<and> \<not> (left_found \<and> right_found) then
          (let available = filter (\<lambda>d. Some (d_address d) \<notin> set [left_address w, right_address w]) g1_devices;
               st1 = (case available of
                        d # rest \<Rightarrow> if \<not> left_found then (True, assign_left d w, rest)
                                   else (left_found, w, available)
                      | [] \<Rightarrow> (left_found, w, available))
           in case st1 of (left_found1, w1, available1) \<Rightarrow>
                (case available1 of
                   d # rest \<Rightarrow> if \<not> right_found then (left_found1, True, assign_right d w1)
                              else (left_found1, right_found, w1)
                 | [] \<Rightarrow> (left_found1, right_found, w1)))
        else st)"

text \<open>From \<open>if not (left_found and right_found)\<close> at the end of the \<open>try\<close> block on.\<close>

definition scan_finish :: "scan_env \<Rightarrow> bool \<times> bool \<times> world \<Rightarrow> bool \<times> world" where
  "scan_finish e st =
     (case st of (left_found, right_found, w) \<Rightarrow>
        if \<not> (left_found \<and> right_found) then (False, set_connection_state DISCONNECTED w)
        else (case se_save e of
                None \<Rightarrow> (True, save w)
              | Some msg \<Rightarrow> (False, set_connection_state DISCONNECTED w)))"

definition scan_for_glasses :: "scan_env \<Rightarrow> world \<Rightarrow> bool \<times> world" where
  "scan_for_glasses e w =
     (let w1 = set_connection_state SCANNING w;
          connected_g1_devices = get_windows_connected_g1_devices (se_ps e) (se_wmi e) w1;
          st = foldl assign_connected (False, False, w1) connected_g1_devices
      in case st of (left_found, right_found, w2) \<Rightarrow>
           if \<not> (left_found \<and> right_found) then
             (case se_discover e of
                None \<Rightarrow> (False, set_connection_state DISCONNECTED (emit [EvDiscover] w2))
              | Some devices \<Rightarrow>
                  (case foldl classify_device ([], left_found, right_found, emit [EvDiscover] w2) devices of
                     (g1_devices, st3) \<Rightarrow> scan_finish e (arbitrate g1_devices st3)))
           else scan_finish e st)"


section \<open>\<open>connect_to_glasses\<close> and \<open>reconnect\<close>\<close>

text \<open>The answer of a collaborator that returns a value or raises.\<close>

datatype 'a answer = Returns 'a | Raises string

text \<open>
  What one run of \<open>connect_to_glasses\<close> meets, call by call: the transport's answers
  to each \<open>_connect_glass\<close>, \<open>verify_pairing\<close>, the two \<open>config.save()\<close> (\<open>Some\<close> the
  message when it raises), the two scans, the \<open>disconnect()\<close> calls of Strategy 4 and of
  the final clean-up, and \<open>command_manager.start()\<close>.
\<close>

record connect_env =
  ce_s1_left :: "nat \<Rightarrow> attempt_env"
  ce_s1_right :: "nat \<Rightarrow> attempt_env"
  ce_pairing :: "bool answer"
  ce_s2_left :: "nat \<Rightarrow> attempt_env"
  ce_s2_right :: "nat \<Rightarrow> attempt_env"
  ce_save3 :: "string option"
  ce_scan3 :: scan_env
  ce_s3_left :: "nat \<Rightarrow> attempt_env"
  ce_s3_right :: "nat \<Rightarrow> attempt_env"
  ce_save4 :: "string option"
  ce_close4_left :: "string option"
  ce_close4_right :: "string option"
  ce_scan4 :: scan_env
  ce_s4_left :: "nat \<Rightarrow> attempt_env"
  ce_s4_right :: "nat \<Rightarrow> attempt_env"
  ce_start :: "string option"
  ce_close_left :: "string option"
  ce_close_right :: "string option"

text \<open>
  Each strategy takes and returns \<open>(left_connected, right_connected, state)\<close>;
  \<open>Inl\<close> is the state in which an exception left the \<open>try\<close> block.
\<close>

definition connect_both :: "(nat \<Rightarrow> attempt_env) \<Rightarrow> (nat \<Rightarrow> attempt_env) \<Rightarrow> world \<Rightarrow> bool \<times> bool \<times> world" where
  "connect_both env_left env_right w =
     (case connect_glass SLeft env_left w of (left_connected, w1) \<Rightarrow>
      case connect_glass SRight env_right w1 of (right_connected, w2) \<Rightarrow>
        (left_connected, right_connected, w2))"

text \<open>Strategy 0: the two addresses the code knows by name.\<close>

definition strategy0 :: "world \<Rightarrow> world" where
  "strategy0 w =
     (let w1 = (if \<not> truthy (left_address w) \<and> contains ''CCF7207288DB'' (str_of (left_name w))
                then w\<lparr>left_address := Some ''CC:F7:20:72:88:DB''\<rparr> else w)
      in if \<not> truthy (right_address w1) \<and> contains ''DAD8C8AF5258'' (str_of (right_name w1))
         then w1\<lparr>right_address := Some ''DA:D8:C8:AF:52:58''\<rparr> else w1)"

definition strategy1 :: "connect_env \<Rightarrow> world \<Rightarrow> bool \<times> bool \<times> world" where
  "strategy1 ce w =
     (if truthy (left_address w) \<and> truthy (right_address w)
      then connect_both (ce_s1_left ce) (ce_s1_right ce) w
      else (False, False, w))"

definition strategy2 :: "connect_env \<Rightarrow> bool \<times> bool \<times> world \<Rightarrow> world + bool \<times> bool \<times> world" where
  "strategy2 ce st =
     (case st of (left_connected, right_connected, w) \<Rightarrow>
        if \<not> left_connected \<and> \<not> right_connected then
          (case ce_pairing ce of
             Raises msg \<Rightarrow> Inl (emit [EvPairing] w)
           | Returns paired \<Rightarrow>
               if paired then Inr (connect_both (ce_s2_left ce) (ce_s2_right ce) (emit [EvPairing] w))
               else Inr (left_connected, right_connected, emit [EvPairing] w))
        else Inr st)"

definition strategy3 :: "connect_env \<Rightarrow> bool \<times> bool \<times> world \<Rightarrow> world + bool \<times> bool \<times> world" where
  "strategy3 ce st =
     (case st of (left_connected, right_connected, w) \<Rightarrow>
        if \<not> left_connected \<and> \<not> right_connected then
          (let old_left = left_address w;
               old_right = right_address w;
               w1 = w\<lparr>left_address := None, right_address := None\<rparr>
           in case ce_save3 ce of
                Some msg \<Rightarrow> Inl w1
              | None \<Rightarrow>
                  (case scan_for_glasses (ce_scan3 ce) (save w1) of
                     (True, w2) \<Rightarrow> Inr (connect_both (ce_s3_left ce) (ce_s3_right ce) w2)
                   | (False, w2) \<Rightarrow>
                       Inr (left_connected, right_connected,
                            w2\<lparr>left_address := old_left, right_address := old_right\<rparr>)))
        else Inr st)"

text \<open>
  \<open>if flag and client: await client.disconnect(); client = None\<close> of Strategy 4,
  not guarded: an exception leaves the \<open>try\<close> block.
\<close>

definition close_side :: "side \<Rightarrow> bool \<Rightarrow> string option \<Rightarrow> world \<Rightarrow> world + world" where
  "close_side sd flag err w =
     (if flag \<and> get_client sd w \<noteq> None then
        (case err of
           Some msg \<Rightarrow> Inl (emit [EvCloseClient sd] w)
         | None \<Rightarrow> Inr (set_client sd None (emit [EvCloseClient sd] w)))
      else Inr w)"

definition strategy4 :: "connect_env \<Rightarrow> bool \<times> bool \<times> world \<Rightarrow> world + bool \<times> bool \<times> world" where
  "strategy4 ce st =
     (case st of (left_connected, right_connected, w) \<Rightarrow>
        if (left_connected \<and> \<not> right_connected) \<or> (right_connected \<and> \<not> left_connected) then
          (let w1 = w\<lparr>left_address := None, right_address := None\<rparr>
           in case ce_save4 ce of
                Some msg \<Rightarrow> Inl w1
              | None \<Rightarrow>
                  (case close_side SLeft left_connected (ce_close4_left ce) (save w1) of
                     Inl w2 \<Rightarrow> Inl w2
                   | Inr w2 \<Rightarrow>
                       (case close_side SRight right_connected (ce_close4_right ce) w2 of
                          Inl w3 \<Rightarrow> Inl w3
                        | Inr w3 \<Rightarrow>
                            (case scan_for_glasses (ce_scan4 ce) w3 of
                               (True, w4) \<Rightarrow> Inr (connect_both (ce_s4_left ce) (ce_s4_right ce) w4)
                             | (False, w4) \<Rightarrow> Inr (left_connected, right_connected, w4)))))
        else Inr st)"

text \<open>
  The same two lines inside \<open>try: ... except: pass\<close> in the final clean-up: when
  \<open>disconnect()\<close> raises, the assignment of \<open>None\<close> is skipped and the run goes on.
\<close>

definition close_partial :: "side \<Rightarrow> bool \<Rightarrow> string option \<Rightarrow> world \<Rightarrow> world" where
  "close_partial sd flag err w =
     (if flag \<and> get_client sd w \<noteq> None then
        (case err of
           Some msg \<Rightarrow> emit [EvCloseClient sd] w
         | None \<Rightarrow> set_client sd None (emit [EvCloseClient sd] w))
      else w)"

text \<open>From \<open># Evaluate success\<close> on.\<close>

definition evaluate :: "connect_env \<Rightarrow> bool \<times> bool \<times> world \<Rightarrow> world + bool \<times> world" where
  "evaluate ce st =
     (case st of (left_connected, right_connected, w) \<Rightarrow>
        if left_connected \<and> right_connected then
          (case ce_start ce of
             Some msg \<Rightarrow> Inl (emit [EvStart] w)
           | None \<Rightarrow>
               Inr (True, (set_connection_state CONNECTED
                             ((emit [EvStart] w)\<lparr>command_manager_started := True\<rparr>))
                          \<lparr>monitoring_task := True\<rparr>))
        else
          Inr (False,
               set_connection_state DISCONNECTED
                 (close_partial SRight right_connected (ce_close_right ce)
                    (close_partial SLeft left_connected (ce_close_left ce) w))))"

definition on_normal :: "world + 'a \<Rightarrow> ('a \<Rightarrow> world + 'b) \<Rightarrow> world + 'b" where
  "on_normal r f = (case r of Inl w \<Rightarrow> Inl w | Inr x \<Rightarrow> f x)"

text \<open>The \<open>try\<close> block of \<open>connect_to_glasses\<close>.\<close>

definition connect_body :: "connect_env \<Rightarrow> world \<Rightarrow> world + bool \<times> world" where
  "connect_body ce w =
     on_normal
       (on_normal
          (on_normal
             (strategy2 ce (strategy1 ce (strategy0 (set_connection_state CONNECTING w))))
             (strategy3 ce))
          (strategy4 ce))
       (evaluate ce)"

definition connect_to_glasses :: "connect_env \<Rightarrow> world \<Rightarrow> bool \<times> world" where
  "connect_to_glasses ce w =
     (case connect_body ce w of
        Inr res \<Rightarrow> res
      | Inl wx \<Rightarrow> (False, set_connection_state DISCONNECTED wx))"

text \<open>\<open>reconnect\<close>: neither call lets an exception out.\<close>

definition reconnect :: "disconnect_env \<Rightarrow> connect_env \<Rightarrow> world \<Rightarrow> bool \<times> world" where
  "reconnect de ce w = connect_to_glasses ce (disconnect de w)"


section \<open>Vocabulary of the properties\<close>

subsection \<open>The connection state over time\<close>

fun chain :: "('a \<Rightarrow> 'a \<Rightarrow> bool) \<Rightarrow> 'a \<Rightarrow> 'a list \<Rightarrow> bool" where
  "chain step c [] = True"
| "chain step c (x # xs) = (step c x \<and> chain step x xs)"

text \<open>
  The transitions the specification allows: along
  \<open>Disconnected \<rightarrow> Scanning \<rightarrow> Connecting \<rightarrow> Connected\<close>, and from any state back to
  \<open>Disconnected\<close>.
\<close>

definition documented_step :: "connection_state \<Rightarrow> connection_state \<Rightarrow> bool" where
  "documented_step a b =
     (b = DISCONNECTED \<or> (a = DISCONNECTED \<and> b = SCANNING) \<or> (a = SCANNING \<and> b = CONNECTING)
      \<or> (a = CONNECTING \<and> b = CONNECTED))"

text \<open>
  The transitions the code makes: any state to \<open>DISCONNECTED\<close>, \<open>SCANNING\<close> or
  \<open>CONNECTING\<close>, and \<open>CONNECTING\<close> or \<open>SCANNING\<close> to \<open>CONNECTED\<close>.
\<close>

definition observed_step :: "connection_state \<Rightarrow> connection_state \<Rightarrow> bool" where
  "observed_step a b =
     (b = DISCONNECTED \<or> b = SCANNING \<or> b = CONNECTING
      \<or> (b = CONNECTED \<and> (a = CONNECTING \<or> a = SCANNING)))"

text \<open>The values written to the state between two states of the manager.\<close>

definition writes :: "world \<Rightarrow> world \<Rightarrow> connection_state list" where
  "writes w w' = drop (length (state_log w)) (state_log w')"

definition follows :: "(connection_state \<Rightarrow> connection_state \<Rightarrow> bool) \<Rightarrow> world \<Rightarrow> world \<Rightarrow> bool" where
  "follows step w w' =
     (state_log w' = state_log w @ writes w w' \<and>
      chain step (connection_state w) (writes w w') \<and>
      connection_state w' = last (connection_state w # writes w w'))"

text \<open>
  A call of \<open>disconnect\<close> in which \<open>command_manager.stop()\<close> raises, or the
  \<open>disconnect()\<close> of a client that is connected.
\<close>

definition disconnect_raises :: "disconnect_env \<Rightarrow> world \<Rightarrow> bool" where
  "disconnect_raises de w =
     (case de_stop de of
        Some msg \<Rightarrow> True
      | None \<Rightarrow> (client_connected (left_client w) \<and> de_left de \<noteq> None) \<or>
                (client_connected (right_client w) \<and> de_right de \<noteq> None))"

subsection \<open>What a call leaves alone\<close>

text \<open>Only the two clients and the trace differ.\<close>

definition link_frame :: "world \<Rightarrow> world \<Rightarrow> bool" where
  "link_frame w w' = (\<exists>t l r. w' = w\<lparr>left_client := l, right_client := r, trace := t\<rparr>)"

text \<open>The events a call added to the trace.\<close>

definition added :: "world \<Rightarrow> world \<Rightarrow> event list" where
  "added w w' = drop (length (trace w)) (trace w')"

subsection \<open>The retry schedule\<close>

fun is_retry_event :: "event \<Rightarrow> bool" where
  "is_retry_event (EvAttempt sd n) = True"
| "is_retry_event (EvRetrySleep d) = True"
| "is_retry_event e = False"

fun is_open_event :: "event \<Rightarrow> bool" where
  "is_open_event (EvOpen sd address t) = True"
| "is_open_event e = False"

text \<open>
  Attempts \<open>first\<close>, \<open>first + 1\<close>, ..., \<open>n\<close> of them, with one sleep of \<open>delay\<close> between
  two consecutive attempts.
\<close>

fun schedule :: "side \<Rightarrow> nat \<Rightarrow> nat \<Rightarrow> nat \<Rightarrow> event list" where
  "schedule sd delay first 0 = []"
| "schedule sd delay first (Suc 0) = [EvAttempt sd first]"
| "schedule sd delay first (Suc (Suc n)) =
     EvAttempt sd first # EvRetrySleep delay # schedule sd delay (Suc first) (Suc n)"

subsection \<open>Sequences of operations\<close>

text \<open>The operations of the manager, each with what it meets.\<close>

datatype operation =
    OpScan scan_env
  | OpConnect connect_env
  | OpDisconnect disconnect_env
  | OpReconnect disconnect_env connect_env
  | OpConnectGlass side "nat \<Rightarrow> attempt_env"
  | OpHandleDisconnect side "nat \<Rightarrow> nat \<Rightarrow> attempt_env"
  | OpMonitor nat
  | OpHeartbeat "nat list"
  | OpUpdateQuality side "int option" bool

fun perform :: "world \<Rightarrow> operation \<Rightarrow> world" where
  "perform w (OpScan e) = snd (scan_for_glasses e w)"
| "perform w (OpConnect ce) = snd (connect_to_glasses ce w)"
| "perform w (OpDisconnect de) = disconnect de w"
| "perform w (OpReconnect de ce) = snd (reconnect de ce w)"
| "perform w (OpConnectGlass sd env) = snd (connect_glass sd env w)"
| "perform w (OpHandleDisconnect sd env) = snd (handle_disconnect sd env w)"
| "perform w (OpMonitor fuel) = snd (monitor_connection_quality fuel w)"
| "perform w (OpHeartbeat nows) = snd (heartbeat_loop nows w)"
| "perform w (OpUpdateQuality sd rssi error) = update_connection_quality sd rssi error w"

definition perform_all :: "operation list \<Rightarrow> world \<Rightarrow> world" where
  "perform_all ops w = foldl perform w ops"

subsection \<open>Sample surroundings\<close>

text \<open>A link that opens and verifies at once, and one whose \<open>connect\<close> times out.\<close>

definition link_up :: attempt_env where
  "link_up = \<lparr>a_open = Opened True, a_fallback = Opened True, a_verify = (\<lambda>_. Verified),
              a_notify = None, a_disconnect = None\<rparr>"

definition link_down :: attempt_env where
  "link_down = \<lparr>a_open = OpenError ''timeout'', a_fallback = OpenError ''timeout'',
                a_verify = (\<lambda>_. Verified), a_notify = None, a_disconnect = None\<rparr>"

text \<open>A scan that finds nothing, and one that finds a left and a right device.\<close>

definition nothing_found :: scan_env where
  "nothing_found = \<lparr>se_ps = None, se_wmi = None, se_discover = Some [], se_save = None\<rparr>"

definition both_found :: scan_env where
  "both_found = \<lparr>se_ps = None, se_wmi = None,
                 se_discover = Some [\<lparr>d_name = Some ''G1_L_1'', d_address = ''A''\<rparr>,
                                     \<lparr>d_name = Some ''G1_R_2'', d_address = ''B''\<rparr>],
                 se_save = None\<rparr>"

text \<open>No link opens, pairing fails, the scans find nothing and nothing raises.\<close>

definition all_quiet :: connect_env where
  "all_quiet =
     \<lparr>ce_s1_left = (\<lambda>_. link_down), ce_s1_right = (\<lambda>_. link_down), ce_pairing = Returns False,
      ce_s2_left = (\<lambda>_. link_down), ce_s2_right = (\<lambda>_. link_down),
      ce_save3 = None, ce_scan3 = nothing_found,
      ce_s3_left = (\<lambda>_. link_down), ce_s3_right = (\<lambda>_. link_down),
      ce_save4 = None, ce_close4_left = None, ce_close4_right = None, ce_scan4 = nothing_found,
      ce_s4_left = (\<lambda>_. link_down), ce_s4_right = (\<lambda>_. link_down),
      ce_start = None, ce_close_left = None, ce_close_right = None\<rparr>"

definition calm :: disconnect_env where
  "calm = \<lparr>de_stop = None, de_left = None, de_right = None\<rparr>"

text \<open>A fresh manager with both addresses stored, and one with none.\<close>

definition paired_world :: world where
  "paired_world = init (Some ''A'') (Some ''B'') None None 1 500 10000 8000"

definition blank_world :: world where
  "blank_world = init None None None None 1 500 10000 8000"

text \<open>The same with both clients open.\<close>

definition linked_world :: world where
  "linked_world =
     paired_world\<lparr>left_client := Some \<lparr>c_address = ''A'', is_connected = True\<rparr>,
                  right_client := Some \<lparr>c_address = ''B'', is_connected = True\<rparr>\<rparr>"


text \<open>The fields a scan does not touch, and those the assignment of a device does not touch.\<close>

definition session :: "world \<Rightarrow> bool \<times> client option \<times> client option \<times> int \<times> string option \<times> int \<times> nat" where
  "session w = (shutting_down w, left_client w, right_client w, error_count w, last_error w,
                reconnect_attempts w, reconnect_delay w)"

definition beside_config :: "world \<Rightarrow> connection_state \<times> connection_state list \<times>
    (string option \<times> string option \<times> string option \<times> string option) \<times> event list \<times>
    (bool \<times> client option \<times> client option \<times> int \<times> string option \<times> int \<times> nat)" where
  "beside_config w = (connection_state w, state_log w, persisted w, trace w, session w)"

text \<open>
  A stretch of a run that keeps \<open>_shutting_down\<close> and never writes \<open>CONNECTED\<close>.
\<close>

definition quiet_run :: "world \<Rightarrow> world \<Rightarrow> bool" where
  "quiet_run w w' =
     (shutting_down w' = shutting_down w \<and>
      (\<exists>ws. state_log w' = state_log w @ ws \<and> CONNECTED \<notin> set ws \<and>
            connection_state w' = last (connection_state w # ws)))"

definition active :: "world \<Rightarrow> bool" where
  "active w = (connection_state w = CONNECTING \<or> connection_state w = SCANNING)"

text \<open>The outcome of the \<open>try\<close> block, as far as the connection state goes.\<close>

definition settled :: "world \<Rightarrow> bool \<times> world \<Rightarrow> bool" where
  "settled w0 res =
     (shutting_down (snd res) = shutting_down w0 \<and> follows observed_step w0 (snd res) \<and>
      connection_state (snd res) = (if fst res then CONNECTED else DISCONNECTED) \<and>
      length (state_log w0) < length (state_log (snd res)))"

text \<open>Inside an attempt: no event of the retry schedule, at most two opens.\<close>

definition inner :: "event list \<Rightarrow> bool" where
  "inner evs = (filter is_retry_event evs = [] \<and> length (filter is_open_event evs) \<le> 0)"

text \<open>
  What the attempt loop adds to the trace, started at \<open>attempt\<close> with \<open>n\<close> iterations
  left: \<open>k\<close> attempts on schedule, at most two opens in each, all \<open>n\<close> of them unless
  one succeeded.
\<close>

definition scheduled :: "side \<Rightarrow> nat \<Rightarrow> nat \<Rightarrow> world \<Rightarrow> bool \<times> world \<Rightarrow> bool" where
  "scheduled sd attempt n w res =
     (\<exists>evs k. trace (snd res) = trace w @ evs \<and> k \<le> n \<and>
        filter is_retry_event evs = schedule sd (reconnect_delay w) attempt k \<and>
        length (filter is_open_event evs) \<le> 2 * k \<and>
        (fst res \<or> k = n) \<and> (fst res \<longrightarrow> 0 < k))"

text \<open>A link that is not found twice and then opens.\<close>

definition flaky_link :: "nat \<Rightarrow> attempt_env" where
  "flaky_link n =
     (if n < 2
      then \<lparr>a_open = OpenError ''Device not found'', a_fallback = OpenError ''timeout'',
            a_verify = (\<lambda>_. Verified), a_notify = None, a_disconnect = None\<rparr>
      else link_up)"

text \<open>What the config holds for a side, and what a device would put there.\<close>

definition left_entry :: "world \<Rightarrow> string option \<times> string option" where
  "left_entry w = (left_address w, left_name w)"

definition right_entry :: "world \<Rightarrow> string option \<times> string option" where
  "right_entry w = (right_address w, right_name w)"

definition entry :: "bt_device \<Rightarrow> string option \<times> string option" where
  "entry d = (Some (d_address d), d_name d)"

definition host_entry :: "string \<times> string option \<Rightarrow> string option \<times> string option" where
  "host_entry dev = (snd dev, Some (fst dev))"

text \<open>The scanned devices that can be assigned at all.\<close>

definition candidates :: "bt_device list \<Rightarrow> bt_device list" where
  "candidates devices = filter is_g1 devices"

text \<open>
  The devices the host reports as connected when a scan starts, and the devices its
  active scan returns (none when \<open>BleakScanner.discover\<close> raises).
\<close>

definition reported :: "scan_env \<Rightarrow> world \<Rightarrow> (string \<times> string option) list" where
  "reported e w =
     get_windows_connected_g1_devices (se_ps e) (se_wmi e) (set_connection_state SCANNING w)"

definition scanned :: "scan_env \<Rightarrow> bt_device list" where
  "scanned e = (case se_discover e of None \<Rightarrow> [] | Some devices \<Rightarrow> devices)"

text \<open>
  A reported device that step 1 takes for the left side, and one it takes for the right
  side.
\<close>

definition host_left :: "string \<times> string option \<Rightarrow> bool" where
  "host_left dev = (contains ''_L_'' (upper (fst dev)) \<or> contains ''LEFT'' (upper (fst dev)))"

definition host_right :: "string \<times> string option \<Rightarrow> bool" where
  "host_right dev =
     (\<not> host_left dev \<and> (contains ''_R_'' (upper (fst dev)) \<or> contains ''RIGHT'' (upper (fst dev))))"

text \<open>Host queries that list both sides by name.\<close>

definition host_listing :: proc where
  "host_listing = \<lparr>returncode = 0,
      stdout = ''Name'' @ [CHR 0x0A] @ ''----'' @ [CHR 0x0A] @ ''Even G1_L_1'' @ [CHR 0x0A] @ ''Even G1_R_2''\<rparr>"

definition host_only :: scan_env where
  "host_only = \<lparr>se_ps = Some host_listing, se_wmi = Some host_listing, se_discover = Some [],
                se_save = None\<rparr>"

text \<open>
  A host that lists the left side only, with a scan that returns a second left-named
  device and a right-named one.
\<close>

definition left_listing :: proc where
  "left_listing = \<lparr>returncode = 0,
      stdout = ''Name'' @ [CHR 0x0A] @ ''----'' @ [CHR 0x0A] @ ''Even G1_L_1''\<rparr>"

definition left_listed :: scan_env where
  "left_listed = \<lparr>se_ps = Some left_listing, se_wmi = None,
                   se_discover = Some [\<lparr>d_name = Some ''G1_L_9'', d_address = ''C''\<rparr>,
                                       \<lparr>d_name = Some ''G1_R_2'', d_address = ''D''\<rparr>],
                   se_save = None\<rparr>"

text \<open>Scans that find two left-named devices, and one device with no side in its name.\<close>

definition two_lefts :: scan_env where
  "two_lefts = \<lparr>se_ps = None, se_wmi = None,
                se_discover = Some [\<lparr>d_name = Some ''G1_L_1'', d_address = ''A''\<rparr>,
                                    \<lparr>d_name = Some ''G1_L_2'', d_address = ''B''\<rparr>],
                se_save = None\<rparr>"

definition one_plain :: scan_env where
  "one_plain = \<lparr>se_ps = None, se_wmi = None,
                se_discover = Some [\<lparr>d_name = None, d_address = ''U''\<rparr>,
                                    \<lparr>d_name = Some ''Even G1'', d_address = ''C''\<rparr>],
                se_save = None\<rparr>"

text \<open>Each side marked as found holds a non-empty address.\<close>

definition resolved :: "bool \<times> bool \<times> world \<Rightarrow> bool" where
  "resolved st = (case st of (lf, rf, w) \<Rightarrow>
      (lf \<longrightarrow> truthy (left_address w)) \<and> (rf \<longrightarrow> truthy (right_address w)))"

text \<open>What a call of \<open>_connect_glass\<close> does to the two clients.\<close>

definition linked :: "side \<Rightarrow> string \<Rightarrow> bool \<Rightarrow> world \<Rightarrow> world \<Rightarrow> bool" where
  "linked sd address ok w w' =
     (\<forall>sd'. get_client sd' w' =
        (if ok \<and> sd' = sd then Some \<lparr>c_address = address, is_connected = True\<rparr> else get_client sd' w))"

text \<open>Each flag says exactly whether its client is there, and a client there is connected.\<close>

definition in_step :: "bool \<times> bool \<times> world \<Rightarrow> bool" where
  "in_step st = (case st of (l, r, w) \<Rightarrow>
      (l \<longleftrightarrow> left_client w \<noteq> None) \<and> (r \<longleftrightarrow> right_client w \<noteq> None) \<and>
      (left_client w \<noteq> None \<longrightarrow> client_connected (left_client w)) \<and>
      (right_client w \<noteq> None \<longrightarrow> client_connected (right_client w)))"

text \<open>No collaborator call of a run of \<open>connect_to_glasses\<close> raises.\<close>

definition nothing_raises :: "connect_env \<Rightarrow> bool" where
  "nothing_raises ce =
     ((\<forall>msg. ce_pairing ce \<noteq> Raises msg) \<and> ce_save3 ce = None \<and> ce_save4 ce = None \<and>
      ce_close4_left ce = None \<and> ce_close4_right ce = None \<and> ce_start ce = None \<and>
      ce_close_left ce = None \<and> ce_close_right ce = None \<and>
      (\<forall>n. a_notify (ce_s1_left ce n) = None) \<and> (\<forall>n. a_notify (ce_s1_right ce n) = None) \<and>
      (\<forall>n. a_notify (ce_s2_left ce n) = None) \<and> (\<forall>n. a_notify (ce_s2_right ce n) = None) \<and>
      (\<forall>n. a_notify (ce_s3_left ce n) = None) \<and> (\<forall>n. a_notify (ce_s3_right ce n) = None) \<and>
      (\<forall>n. a_notify (ce_s4_left ce n) = None) \<and> (\<forall>n. a_notify (ce_s4_right ce n) = None))"

text \<open>
  A client that is there is connected and flagged, and two set flags mean two clients.
\<close>

definition loosely_in_step :: "bool \<times> bool \<times> world \<Rightarrow> bool" where
  "loosely_in_step st = (case st of (l, r, w) \<Rightarrow>
      (left_client w = None \<or> (l \<and> client_connected (left_client w))) \<and>
      (right_client w = None \<or> (r \<and> client_connected (right_client w))) \<and>
      (l \<and> r \<longrightarrow> left_client w \<noteq> None \<and> right_client w \<noteq> None))"

text \<open>The two ends the specification allows.\<close>

definition both_or_neither :: "bool \<times> world \<Rightarrow> bool" where
  "both_or_neither res = (case res of (ok, w) \<Rightarrow>
      (ok \<and> connection_state w = CONNECTED \<and>
         client_connected (left_client w) \<and> client_connected (right_client w)) \<or>
      (\<not> ok \<and> connection_state w = DISCONNECTED \<and> left_client w = None \<and> right_client w = None))"

section \<open>What \<open>_connect_glass\<close> leaves alone\<close>

lemma link_frame_refl: "link_frame w w"
  unfolding link_frame_def
  by (rule exI[of _ "trace w"], rule exI[of _ "left_client w"], rule exI[of _ "right_client w"]) simp

lemma link_frame_trans: "link_frame a b \<Longrightarrow> link_frame b c \<Longrightarrow> link_frame a c"
  unfolding link_frame_def by (elim exE) (simp, blast)

lemma link_frame_emit: "link_frame w (emit evs w)"
  unfolding link_frame_def emit_def
  by (rule exI[of _ "trace w @ evs"], rule exI[of _ "left_client w"], rule exI[of _ "right_client w"]) simp

lemma link_frame_set_client: "link_frame w (set_client sd c w)"
  unfolding link_frame_def set_client_def
  apply (cases sd; simp)
   apply (rule exI[of _ "trace w"], rule exI[of _ "c"], rule exI[of _ "right_client w"], simp)
  apply (rule exI[of _ "trace w"], rule exI[of _ "left_client w"], rule exI[of _ "c"], simp)
  done

lemma link_frame_fields:
  assumes "link_frame w w'"
  shows "shutting_down w' = shutting_down w"
    and "connection_state w' = connection_state w"
    and "state_log w' = state_log w"
    and "left_address w' = left_address w"
    and "right_address w' = right_address w"
    and "left_name w' = left_name w"
    and "right_name w' = right_name w"
    and "persisted w' = persisted w"
    and "reconnect_attempts w' = reconnect_attempts w"
    and "reconnect_delay w' = reconnect_delay w"
    and "error_count w' = error_count w"
    and "last_error w' = last_error w"
  using assms unfolding link_frame_def by auto

lemma link_frame_after_open: "link_frame w (snd (after_open sd address a c w))"
proof -
  obtain ok evs where v: "verify_connection (a_verify a) = (ok, evs)"
    by (cases "verify_connection (a_verify a)")
  have 1: "link_frame w (emit evs w)" by (rule link_frame_emit)
  have 2: "link_frame w (emit [EvCloseClient sd] (emit evs w))"
    by (rule link_frame_trans[OF 1 link_frame_emit])
  have 3: "link_frame w (emit [EvNotify sd] (set_client sd (Some \<lparr>c_address = address, is_connected = True\<rparr>) (emit evs w)))"
    by (rule link_frame_trans[OF link_frame_trans[OF 1 link_frame_set_client] link_frame_emit])
  show ?thesis
    using 2 3 v by (simp add: after_open_def Let_def link_frame_refl split: option.splits)
qed

lemma link_frame_attempt_body: "link_frame w (snd (attempt_body sd address a w))"
proof -
  let ?w1 = "emit [EvOpen sd address (connection_timeout w)] w"
  let ?w2 = "emit [EvOpen sd address 15000] ?w1"
  have 1: "link_frame w ?w1" by (rule link_frame_emit)
  have 2: "link_frame w ?w2" by (rule link_frame_trans[OF 1 link_frame_emit])
  have 3: "\<And>c. link_frame w (snd (after_open sd address a c ?w1))"
    by (rule link_frame_trans[OF 1 link_frame_after_open])
  have 4: "\<And>c. link_frame w (snd (after_open sd address a c ?w2))"
    by (rule link_frame_trans[OF 2 link_frame_after_open])
  show ?thesis
    using 1 2 3 4 by (simp add: attempt_body_def Let_def split: open_result.splits)
qed

lemma link_frame_retry_sleep: "link_frame w (retry_sleep attempt w)"
  by (simp add: retry_sleep_def link_frame_emit link_frame_refl)

lemma link_frame_connect_attempts: "link_frame w (snd (connect_attempts sd address env attempt n w))"
proof (induction n arbitrary: attempt w)
  case 0
  show ?case by (simp add: link_frame_refl)
next
  case (Suc n)
  let ?w0 = "emit [EvAttempt sd attempt] w"
  obtain out w1 where b: "attempt_body sd address (env attempt) ?w0 = (out, w1)"
    by (cases "attempt_body sd address (env attempt) ?w0")
  have f1: "link_frame w w1"
    using link_frame_trans[OF link_frame_emit[of w "[EvAttempt sd attempt]"]
            link_frame_attempt_body[of ?w0 sd address "env attempt"]] b
    by simp
  show ?case
  proof (cases out)
    case Succeeded
    then show ?thesis using b f1 by simp
  next
    case Failed
    have "link_frame w (snd (connect_attempts sd address env (Suc attempt) n (retry_sleep attempt w1)))"
      by (rule link_frame_trans[OF link_frame_trans[OF f1 link_frame_retry_sleep] Suc.IH])
    then show ?thesis using b Failed by simp
  next
    case (Raised msg)
    have "link_frame w (snd (connect_attempts sd address env (Suc attempt) n
             (retry_sleep attempt (emit [EvClassified (classify msg)] w1))))"
      by (rule link_frame_trans[OF link_frame_trans[OF link_frame_trans[OF f1 link_frame_emit] link_frame_retry_sleep] Suc.IH])
    then show ?thesis using b Raised by simp
  qed
qed

lemma link_frame_connect_glass: "link_frame w (snd (connect_glass sd env w))"
  by (simp add: connect_glass_def link_frame_refl link_frame_connect_attempts split: option.splits)

lemma link_frame_connect_both: "link_frame w (snd (snd (connect_both el er w)))"
proof -
  obtain l w1 where 1: "connect_glass SLeft el w = (l, w1)" by (cases "connect_glass SLeft el w")
  obtain r w2 where 2: "connect_glass SRight er w1 = (r, w2)" by (cases "connect_glass SRight er w1")
  have "link_frame w w1" using link_frame_connect_glass[of w SLeft el] 1 by simp
  moreover have "link_frame w1 w2" using link_frame_connect_glass[of w1 SRight er] 2 by simp
  ultimately show ?thesis using 1 2 by (simp add: connect_both_def link_frame_trans)
qed


lemma link_frame_reconnect_loop: "link_frame w (snd (reconnect_loop sd env attempt n w))"
proof (induction n arbitrary: attempt w)
  case 0
  show ?case by (simp add: link_frame_refl)
next
  case (Suc n)
  let ?w0 = "emit [EvReconnectAttempt sd attempt] w"
  obtain ok w1 where c: "connect_glass sd (env attempt) ?w0 = (ok, w1)"
    by (cases "connect_glass sd (env attempt) ?w0")
  have f1: "link_frame w w1"
    using link_frame_trans[OF link_frame_emit[of w "[EvReconnectAttempt sd attempt]"]
            link_frame_connect_glass[of ?w0 sd "env attempt"]] c
    by simp
  have "link_frame w (snd (reconnect_loop sd env (Suc attempt) n (emit [EvRetrySleep (reconnect_delay w1)] w1)))"
    by (rule link_frame_trans[OF link_frame_trans[OF f1 link_frame_emit] Suc.IH])
  then show ?case using c f1 by (cases ok) (simp_all add: link_frame_refl)
qed

lemmas world_ops = emit_def set_client_def get_client_def get_address_def set_connection_state_def
  save_def record_error_def title_def

lemmas attempt_defs = connect_glass_def attempt_body_def after_open_def verify_connection_def
  max_retries_def retry_sleep_def classify_def numeral_3_eq_3

lemmas connect_defs = connect_to_glasses_def connect_body_def on_normal_def strategy0_def strategy1_def
  strategy2_def strategy3_def strategy4_def evaluate_def connect_both_def close_side_def close_partial_def

lemmas scan_defs = scan_for_glasses_def get_windows_connected_g1_devices_def scan_finish_def
  arbitrate_def classify_device_def assign_connected_def is_g1_def named_left_def named_right_def
  assign_left_def assign_right_def g1_patterns_def has_output_def parse_pnp_line_def parse_wmi_line_def

lemmas string_defs = lower_def lower_char_def upper_def upper_char_def uppers_def lowers_def
  strip_def is_space_def truthy_def str_of_def

lemmas sample_defs = link_up_def link_down_def nothing_found_def both_found_def all_quiet_def
  calm_def paired_world_def blank_world_def linked_world_def init_def host_listing_def host_only_def
  two_lefts_def one_plain_def

section \<open>The disconnect handler during shutdown\<close>

text \<open>
  Claim C7. Whenever \<open>_handle_disconnect\<close> is called while \<open>_shutting_down\<close> is true,
  it returns \<open>False\<close> at once: the state is the one it was called in, nothing was added
  to the trace, so no attempt of \<open>_connect_glass\<close> was made.
\<close>

theorem handle_disconnect_while_shutting_down:
  "shutting_down w \<Longrightarrow>
     handle_disconnect sd env w = (False, w) \<and> added w (snd (handle_disconnect sd env w)) = []"
  by (simp add: handle_disconnect_def added_def)

theorem handle_disconnect_while_shutting_down_witness:
  "shutting_down (paired_world\<lparr>shutting_down := True\<rparr>) \<and>
   handle_disconnect SLeft (\<lambda>_ _. link_up) (paired_world\<lparr>shutting_down := True\<rparr>)
     = (False, paired_world\<lparr>shutting_down := True\<rparr>) \<and>
   added (paired_world\<lparr>shutting_down := True\<rparr>)
     (snd (handle_disconnect SLeft (\<lambda>_ _. link_up) (paired_world\<lparr>shutting_down := True\<rparr>))) = []"
  using handle_disconnect_while_shutting_down[of "paired_world\<lparr>shutting_down := True\<rparr>" SLeft "\<lambda>_ _. link_up"]
  by (simp add: added_def)

section \<open>The status snapshot\<close>

lemma error_count_reconnect_loop:
  "error_count (snd (reconnect_loop sd env attempt n w)) = error_count w"
  by (rule link_frame_fields(11)[OF link_frame_reconnect_loop])

text \<open>
  Claim C9, as amended. \<open>get_status_data\<close> reports for each side that side's own
  \<open>connected\<close> flag, but the error count and the last error it reports under both
  sides are the manager's single \<open>_error_count\<close> and \<open>_last_error\<close>, so the two sides
  always show the same values; the per-side mapping kept by
  \<open>_update_connection_quality\<close> is not read by the snapshot; and a disconnect handled
  for either side (outside shutdown) raises the count reported for both sides by one.
\<close>

theorem status_shared_counters:
  "errors (status_left (get_status_data w)) = error_count w \<and>
   errors (status_right (get_status_data w)) = error_count w \<and>
   status_last_error (status_left (get_status_data w)) = last_error w \<and>
   status_last_error (status_right (get_status_data w)) = last_error w \<and>
   connected (status_left (get_status_data w)) = client_connected (left_client w) \<and>
   connected (status_right (get_status_data w)) = client_connected (right_client w) \<and>
   get_status_data (update_connection_quality sd rssi error w) = get_status_data w \<and>
   (\<not> shutting_down w \<longrightarrow>
      errors (status_left (get_status_data (snd (handle_disconnect sd env w)))) = error_count w + 1 \<and>
      errors (status_right (get_status_data (snd (handle_disconnect sd env w)))) = error_count w + 1)"
  by (simp add: get_status_data_def update_connection_quality_def Let_def handle_disconnect_def
        error_count_reconnect_loop record_error_def)

theorem status_shared_counters_witness:
  "\<not> shutting_down paired_world \<and>
   errors (status_right (get_status_data paired_world)) = 0 \<and>
   errors (status_left (get_status_data (snd (handle_disconnect SLeft (\<lambda>_ _. link_down) paired_world)))) = 1 \<and>
   errors (status_right (get_status_data (snd (handle_disconnect SLeft (\<lambda>_ _. link_down) paired_world)))) = 1"
  using status_shared_counters[of paired_world SLeft None False "\<lambda>_ _. link_down"]
  by (simp add: paired_world_def init_def)

text \<open>
  Claim C9 as stated fails: with no error on record, a disconnect of the left side
  handled by \<open>_handle_disconnect\<close> changes the error count and the last error reported
  for the right side.
\<close>

theorem status_counterexample:
  "errors (status_right (get_status_data paired_world)) = 0 \<and>
   status_last_error (status_right (get_status_data paired_world)) = None \<and>
   errors (status_right (get_status_data
      (snd (handle_disconnect SLeft (\<lambda>_ _. link_down) paired_world)))) = 1 \<and>
   status_last_error (status_right (get_status_data
      (snd (handle_disconnect SLeft (\<lambda>_ _. link_down) paired_world)))) = Some ''Left glass disconnected''"
  by (simp add: handle_disconnect_def get_status_data_def sample_defs world_ops attempt_defs string_defs)

section \<open>The heartbeat loop\<close>

lemma and_255_mod: "(k::int) AND 0xFF = k mod 256"
  using take_bit_eq_mask[of 8 k] take_bit_eq_mod[of 8 k] by (simp add: mask_eq_exp_minus_1)

lemma heartbeat_round_fails:
  "left_client w \<noteq> None \<Longrightarrow> right_client w \<noteq> None \<Longrightarrow>
   heartbeat_round now (seq, w) =
     ((seq + 1) mod 256,
      heartbeat_failed (quoted ''BLEManager'' @ '' object has no attribute '' @ quoted ''send_command'') w)"
  by (simp add: heartbeat_round_def send_command_def and_255_mod Let_def)

lemma heartbeat_round_idle:
  "left_client w = None \<or> right_client w = None \<Longrightarrow> heartbeat_round now (seq, w) = (seq, w)"
  by (auto simp: heartbeat_round_def)

lemma heartbeat_failed_fields:
  "left_client (heartbeat_failed msg w) = left_client w"
  "right_client (heartbeat_failed msg w) = right_client w"
  "trace (heartbeat_failed msg w) = trace w @ [EvSleep 2000]"
  "error_count (heartbeat_failed msg w) = error_count w + 1"
  "last_error (heartbeat_failed msg w) = Some (''Heartbeat failed: '' @ msg)"
  "last_heartbeat (heartbeat_failed msg w) = last_heartbeat w"
  by (simp_all add: heartbeat_failed_def record_error_def emit_def)

text \<open>
  With both clients set, every iteration fails before anything is sent: the counter
  advances, the error counter advances, the loop sleeps two seconds, and
  \<open>_last_heartbeat\<close> is never set.
\<close>

lemma heartbeat_rounds_fail:
  "left_client w \<noteq> None \<Longrightarrow> right_client w \<noteq> None \<Longrightarrow> 0 \<le> seq \<Longrightarrow> seq < 256 \<Longrightarrow>
   fst (foldl (\<lambda>sw now. heartbeat_round now sw) (seq, w) nows) = (seq + int (length nows)) mod 256 \<and>
   trace (snd (foldl (\<lambda>sw now. heartbeat_round now sw) (seq, w) nows))
     = trace w @ replicate (length nows) (EvSleep 2000) \<and>
   error_count (snd (foldl (\<lambda>sw now. heartbeat_round now sw) (seq, w) nows))
     = error_count w + int (length nows) \<and>
   last_heartbeat (snd (foldl (\<lambda>sw now. heartbeat_round now sw) (seq, w) nows)) = last_heartbeat w"
proof (induction nows arbitrary: seq w)
  case Nil
  then show ?case by simp
next
  case (Cons now nows)
  let ?msg = "quoted ''BLEManager'' @ '' object has no attribute '' @ quoted ''send_command''"
  let ?w1 = "heartbeat_failed ?msg w"
  let ?s1 = "(seq + 1) mod 256"
  have r: "heartbeat_round now (seq, w) = (?s1, ?w1)"
    by (rule heartbeat_round_fails[OF Cons.prems(1,2)])
  have c: "left_client ?w1 \<noteq> None" "right_client ?w1 \<noteq> None"
    using Cons.prems by (simp_all add: heartbeat_failed_fields)
  have b: "0 \<le> ?s1" "?s1 < 256" by simp_all
  note ih = Cons.IH[OF c b]
  have m: "(?s1 + int (length nows)) mod 256 = (seq + int (length (now # nows))) mod 256"
    by simp presburger
  have t: "trace ?w1 @ replicate (length nows) (EvSleep 2000)
             = trace w @ replicate (length (now # nows)) (EvSleep 2000)"
    by (simp add: heartbeat_failed_fields)
  have e: "error_count ?w1 + int (length nows) = error_count w + int (length (now # nows))"
    by (simp add: heartbeat_failed_fields)
  have h: "last_heartbeat ?w1 = last_heartbeat w" by (simp add: heartbeat_failed_fields)
  have f: "foldl (\<lambda>sw now. heartbeat_round now sw) (seq, w) (now # nows)
             = foldl (\<lambda>sw now. heartbeat_round now sw) (?s1, ?w1) nows"
    using r by simp
  show ?case unfolding f using ih m t e h by simp
qed

text \<open>
  Claim C3 holds of no run of the code. \<open>_heartbeat_loop\<close> calls \<open>self.send_command\<close>,
  which \<open>BLEManager\<close> does not define: with both clients set, each round increments the
  counter and builds the frame, then fails with \<open>AttributeError\<close> before a frame is
  sent to either side. After three rounds from a manager with both clients connected the
  counter is 3, no round was successful, the only events are the three two-second sleeps
  of the \<open>except\<close> branch, three errors are counted and \<open>_last_heartbeat\<close> is still
  unset.
\<close>

theorem heartbeat_never_sends:
  "left_client linked_world \<noteq> None \<and> right_client linked_world \<noteq> None \<and>
   heartbeat_frame 1 = [0x25, 0x06, 0x00, 1, 0x04, 1] \<and>
   send_command (left_client linked_world) (heartbeat_frame 1) linked_world
     = Inl (quoted ''BLEManager'' @ '' object has no attribute '' @ quoted ''send_command'') \<and>
   fst (heartbeat_loop [10, 20, 30] linked_world) = 3 \<and>
   added linked_world (snd (heartbeat_loop [10, 20, 30] linked_world))
     = [EvSleep 2000, EvSleep 2000, EvSleep 2000] \<and>
   error_count linked_world = 0 \<and>
   error_count (snd (heartbeat_loop [10, 20, 30] linked_world)) = 3 \<and>
   last_error (snd (heartbeat_loop [10, 20, 30] linked_world))
     = Some (''Heartbeat failed: '' @ quoted ''BLEManager'' @ '' object has no attribute '' @
             quoted ''send_command'') \<and>
   last_heartbeat (snd (heartbeat_loop [10, 20, 30] linked_world)) = None"
  by (simp add: heartbeat_loop_def heartbeat_round_def send_command_def heartbeat_failed_def
        heartbeat_frame_def record_error_def added_def sample_defs world_ops Let_def)

section \<open>What a scan leaves alone and what it writes\<close>

lemma beside_config_assign_connected:
  "beside_config (snd (snd (assign_connected st dev))) = beside_config (snd (snd st))"
  by (cases st; cases dev) (simp add: assign_connected_def beside_config_def session_def)

lemma beside_config_foldl_assign:
  "beside_config (snd (snd (foldl assign_connected st devs))) = beside_config (snd (snd st))"
  by (induction devs arbitrary: st) (simp_all add: beside_config_assign_connected)

lemma beside_config_classify_device:
  "beside_config (snd (snd (snd (classify_device st d)))) = beside_config (snd (snd (snd st)))"
  by (cases st) (simp add: classify_device_def beside_config_def session_def assign_left_def assign_right_def)

lemma beside_config_foldl_classify:
  "beside_config (snd (snd (snd (foldl classify_device st devs)))) = beside_config (snd (snd (snd st)))"
  by (induction devs arbitrary: st) (simp_all add: beside_config_classify_device)

lemma beside_config_arbitrate:
  "beside_config (snd (snd (arbitrate g1 st))) = beside_config (snd (snd st))"
  by (cases st) (simp add: arbitrate_def beside_config_def session_def assign_left_def assign_right_def
       Let_def split: list.splits)

text \<open>What a scan does to the connection state.\<close>

lemma scan_finish_state:
  "scan_finish e st = (b, w') \<Longrightarrow>
     session w' = session (snd (snd st)) \<and>
     (b \<longrightarrow> connection_state w' = connection_state (snd (snd st)) \<and> state_log w' = state_log (snd (snd st))) \<and>
     (\<not> b \<longrightarrow> connection_state w' = DISCONNECTED \<and> state_log w' = state_log (snd (snd st)) @ [DISCONNECTED])"
  by (cases st) (auto simp: scan_finish_def session_def world_ops split: if_splits option.splits)

lemma scan_state:
  assumes "scan_for_glasses e w = (b, w')"
  shows "session w' = session w"
    and "b \<Longrightarrow> connection_state w' = SCANNING \<and> state_log w' = state_log w @ [SCANNING]"
    and "\<not> b \<Longrightarrow> connection_state w' = DISCONNECTED \<and> state_log w' = state_log w @ [SCANNING, DISCONNECTED]"
proof -
  let ?w1 = "set_connection_state SCANNING w"
  let ?st = "foldl assign_connected (False, False, ?w1)
               (get_windows_connected_g1_devices (se_ps e) (se_wmi e) ?w1)"
  obtain lf rf w2 where st: "?st = (lf, rf, w2)" by (cases ?st)
  have k2: "beside_config w2 = beside_config ?w1"
    using beside_config_foldl_assign[of "(False, False, ?w1)"
            "get_windows_connected_g1_devices (se_ps e) (se_wmi e) ?w1"] st by simp
  have w1: "connection_state ?w1 = SCANNING" "state_log ?w1 = state_log w @ [SCANNING]" "session ?w1 = session w"
    by (simp_all add: set_connection_state_def session_def)
  have w2: "connection_state w2 = SCANNING" "state_log w2 = state_log w @ [SCANNING]" "session w2 = session w"
    using k2 w1 by (simp_all add: beside_config_def)
  have goal: "session w' = session w \<and>
     (b \<longrightarrow> connection_state w' = SCANNING \<and> state_log w' = state_log w @ [SCANNING]) \<and>
     (\<not> b \<longrightarrow> connection_state w' = DISCONNECTED \<and> state_log w' = state_log w @ [SCANNING, DISCONNECTED])"
  proof (cases "lf \<and> rf")
    case True
    then have "scan_finish e (lf, rf, w2) = (b, w')"
      using assms st by (simp add: scan_for_glasses_def Let_def)
    from scan_finish_state[OF this] w2 show ?thesis by simp
  next
    case False
    show ?thesis
    proof (cases "se_discover e")
      case None
      then have "w' = set_connection_state DISCONNECTED (emit [EvDiscover] w2)" "\<not> b"
        using assms st False by (auto simp: scan_for_glasses_def Let_def)
      then show ?thesis using w2 by (simp add: world_ops session_def)
    next
      case (Some devices)
      let ?w3 = "emit [EvDiscover] w2"
      obtain g1 lf3 rf3 w4 where f: "foldl classify_device ([], lf, rf, ?w3) devices = (g1, lf3, rf3, w4)"
        by (cases "foldl classify_device ([], lf, rf, ?w3) devices") auto
      obtain lf5 rf5 w5 where a: "arbitrate g1 (lf3, rf3, w4) = (lf5, rf5, w5)"
        by (cases "arbitrate g1 (lf3, rf3, w4)")
      have k4: "beside_config w4 = beside_config ?w3"
        using beside_config_foldl_classify[of "([], lf, rf, ?w3)" devices] f by simp
      have k5: "beside_config w5 = beside_config w4"
        using beside_config_arbitrate[of g1 "(lf3, rf3, w4)"] a by simp
      have w5: "connection_state w5 = SCANNING" "state_log w5 = state_log w @ [SCANNING]" "session w5 = session w"
        using k4 k5 w2 by (simp_all add: beside_config_def emit_def session_def)
      have "scan_finish e (lf5, rf5, w5) = (b, w')"
        using assms st False Some f a by (simp add: scan_for_glasses_def Let_def)
      from scan_finish_state[OF this] w5 show ?thesis by simp
    qed
  qed
  show "session w' = session w" using goal by simp
  show "b \<Longrightarrow> connection_state w' = SCANNING \<and> state_log w' = state_log w @ [SCANNING]" using goal by simp
  show "\<not> b \<Longrightarrow> connection_state w' = DISCONNECTED \<and> state_log w' = state_log w @ [SCANNING, DISCONNECTED]" using goal by simp
qed

section \<open>The connection state through \<open>connect_to_glasses\<close>\<close>

lemma quiet_run_refl: "quiet_run w w"
  by (simp add: quiet_run_def)

lemma quiet_run_trans: "quiet_run a b \<Longrightarrow> quiet_run b c \<Longrightarrow> quiet_run a c"
proof -
  assume ab: "quiet_run a b" and bc: "quiet_run b c"
  from ab obtain ws where 1: "state_log b = state_log a @ ws" "CONNECTED \<notin> set ws"
      "connection_state b = last (connection_state a # ws)" "shutting_down b = shutting_down a"
    by (auto simp: quiet_run_def)
  from bc obtain vs where 2: "state_log c = state_log b @ vs" "CONNECTED \<notin> set vs"
      "connection_state c = last (connection_state b # vs)" "shutting_down c = shutting_down b"
    by (auto simp: quiet_run_def)
  have "state_log c = state_log a @ (ws @ vs)" using 1 2 by simp
  moreover have "CONNECTED \<notin> set (ws @ vs)" using 1 2 by simp
  moreover have "connection_state c = last (connection_state a # (ws @ vs))"
    using 1 2 by (cases vs) simp_all
  ultimately show ?thesis unfolding quiet_run_def using 1(4) 2(4) by metis
qed

lemma quiet_run_same:
  "shutting_down w2 = shutting_down w1 \<Longrightarrow> state_log w2 = state_log w1 \<Longrightarrow>
   connection_state w2 = connection_state w1 \<Longrightarrow> quiet_run w1 w2"
  by (simp add: quiet_run_def)

lemma quiet_run_set: "c \<noteq> CONNECTED \<Longrightarrow> quiet_run w (set_connection_state c w)"
  by (simp add: quiet_run_def set_connection_state_def)

lemma quiet_run_link: "link_frame w1 w2 \<Longrightarrow> quiet_run w1 w2"
  by (rule quiet_run_same) (simp_all add: link_frame_fields)

lemma quiet_run_scan:
  assumes "scan_for_glasses e w = (b, w')"
  shows "quiet_run w w'" and "b \<Longrightarrow> connection_state w' = SCANNING"
proof -
  have s: "shutting_down w' = shutting_down w" using scan_state(1)[OF assms] by (simp add: session_def)
  show "quiet_run w w'"
  proof (cases b)
    case True
    then show ?thesis using scan_state(2)[OF assms] s
      unfolding quiet_run_def by (intro conjI exI[of _ "[SCANNING]"]) simp_all
  next
    case False
    then show ?thesis using scan_state(3)[OF assms] s
      unfolding quiet_run_def by (intro conjI exI[of _ "[SCANNING, DISCONNECTED]"]) simp_all
  qed
  show "b \<Longrightarrow> connection_state w' = SCANNING" using scan_state(2)[OF assms] by simp
qed

lemma quiet_run_connect_both:
  "connect_both el er w = (l, r, w') \<Longrightarrow> quiet_run w w' \<and> connection_state w' = connection_state w"
  using link_frame_connect_both[of w el er] by (simp add: quiet_run_link link_frame_fields)

lemma chain_quiet: "CONNECTED \<notin> set ws \<Longrightarrow> chain observed_step c ws"
  by (induction ws arbitrary: c) (auto simp: observed_step_def, (metis connection_state.exhaust)+)

lemma quiet_run_addresses:
  "quiet_run w (w\<lparr>left_address := a, right_address := b\<rparr>)"
  by (simp add: quiet_run_def)

lemma quiet_run_emit: "quiet_run w (emit evs w)"
  by (simp add: quiet_run_def emit_def)

lemma quiet_run_save: "quiet_run w (save w)"
  by (simp add: quiet_run_def save_def emit_def)

lemma active_emit [simp]: "active (emit evs w) = active w"
  by (simp add: active_def emit_def)

lemma strategy01_run:
  "strategy1 ce (strategy0 (set_connection_state CONNECTING w)) = (l, r, w') \<Longrightarrow>
     quiet_run (set_connection_state CONNECTING w) w' \<and> active w'"
proof -
  let ?w1 = "set_connection_state CONNECTING w"
  assume a: "strategy1 ce (strategy0 ?w1) = (l, r, w')"
  have q0: "quiet_run ?w1 (strategy0 ?w1)" "connection_state (strategy0 ?w1) = CONNECTING"
    by (simp_all add: strategy0_def Let_def quiet_run_def set_connection_state_def)
  show ?thesis
  proof (cases "truthy (left_address (strategy0 ?w1)) \<and> truthy (right_address (strategy0 ?w1))")
    case True
    then have "connect_both (ce_s1_left ce) (ce_s1_right ce) (strategy0 ?w1) = (l, r, w')"
      using a by (simp add: strategy1_def)
    from quiet_run_connect_both[OF this] q0 show ?thesis
      by (auto simp: active_def intro: quiet_run_trans)
  next
    case False
    then have "w' = strategy0 ?w1" using a by (auto simp: strategy1_def)
    then show ?thesis using q0 by (simp add: active_def)
  qed
qed

lemma strategy2_run:
  assumes "quiet_run w0 w" "active w"
  shows "case strategy2 ce (l, r, w) of
           Inl wx \<Rightarrow> quiet_run w0 wx
         | Inr (l', r', w') \<Rightarrow> quiet_run w0 w' \<and> active w'"
proof (cases "\<not> l \<and> \<not> r")
  case False
  then show ?thesis using assms by (auto simp: strategy2_def)
next
  case True
  have qe: "quiet_run w0 (emit [EvPairing] w)" by (rule quiet_run_trans[OF assms(1) quiet_run_emit])
  show ?thesis
  proof (cases "ce_pairing ce")
    case (Raises msg)
    then show ?thesis using True qe by (simp add: strategy2_def)
  next
    case (Returns paired)
    show ?thesis
    proof (cases paired)
      case False
      then show ?thesis using True Returns qe assms(2) by (simp add: strategy2_def)
    next
      case p: True
      obtain l' r' w' where c: "connect_both (ce_s2_left ce) (ce_s2_right ce) (emit [EvPairing] w) = (l', r', w')"
        by (cases "connect_both (ce_s2_left ce) (ce_s2_right ce) (emit [EvPairing] w)") auto
      from quiet_run_connect_both[OF c] qe assms(2)
      have "quiet_run w0 w' \<and> active w'"
        by (auto simp: active_def emit_def intro: quiet_run_trans)
      then show ?thesis using True Returns p c by (simp add: strategy2_def)
    qed
  qed
qed

lemma strategy3_run:
  assumes "quiet_run w0 w" "active w"
  shows "case strategy3 ce (l, r, w) of
           Inl wx \<Rightarrow> quiet_run w0 wx
         | Inr (l', r', w') \<Rightarrow> quiet_run w0 w' \<and> (active w' \<or> \<not> (l' \<and> r'))"
proof (cases "\<not> l \<and> \<not> r")
  case False
  then show ?thesis using assms by (auto simp: strategy3_def)
next
  case True
  let ?w1 = "w\<lparr>left_address := None, right_address := None\<rparr>"
  have q1: "quiet_run w0 ?w1" by (rule quiet_run_trans[OF assms(1) quiet_run_addresses])
  show ?thesis
  proof (cases "ce_save3 ce")
    case (Some msg)
    then show ?thesis using True q1 by (simp add: strategy3_def Let_def)
  next
    case None
    have q2: "quiet_run w0 (save ?w1)" by (rule quiet_run_trans[OF q1 quiet_run_save])
    obtain b w2 where sc: "scan_for_glasses (ce_scan3 ce) (save ?w1) = (b, w2)"
      by (cases "scan_for_glasses (ce_scan3 ce) (save ?w1)")
    have q3: "quiet_run w0 w2" by (rule quiet_run_trans[OF q2 quiet_run_scan(1)[OF sc]])
    show ?thesis
    proof (cases b)
      case False
      have "quiet_run w0 (w2\<lparr>left_address := left_address w, right_address := right_address w\<rparr>)"
        by (rule quiet_run_trans[OF q3 quiet_run_addresses])
      then show ?thesis using True None sc False by (simp add: strategy3_def Let_def)
    next
      case b: True
      obtain l' r' w' where c: "connect_both (ce_s3_left ce) (ce_s3_right ce) w2 = (l', r', w')"
        by (cases "connect_both (ce_s3_left ce) (ce_s3_right ce) w2") auto
      from quiet_run_connect_both[OF c] q3 quiet_run_scan(2)[OF sc] b
      have "quiet_run w0 w' \<and> active w'"
        by (auto simp: active_def intro: quiet_run_trans)
      then show ?thesis using True None sc b c by (simp add: strategy3_def Let_def)
    qed
  qed
qed

lemma quiet_run_set_client: "quiet_run w (set_client sd c w)"
  by (rule quiet_run_link[OF link_frame_set_client])

lemma close_side_run:
  "quiet_run w0 w \<Longrightarrow> (case close_side sd flag err w of Inl wx \<Rightarrow> quiet_run w0 wx | Inr w' \<Rightarrow> quiet_run w0 w')"
  by (auto simp: close_side_def split: option.splits
           intro: quiet_run_trans[OF _ quiet_run_emit]
                  quiet_run_trans[OF quiet_run_trans[OF _ quiet_run_emit] quiet_run_set_client])

lemma close_partial_run: "quiet_run w (close_partial sd flag err w)"
  by (auto simp: close_partial_def quiet_run_refl split: option.splits
           intro: quiet_run_emit quiet_run_trans[OF quiet_run_emit quiet_run_set_client])

lemma strategy4_run:
  assumes "quiet_run w0 w" "active w \<or> \<not> (l \<and> r)"
  shows "case strategy4 ce (l, r, w) of
           Inl wx \<Rightarrow> quiet_run w0 wx
         | Inr (l', r', w') \<Rightarrow> quiet_run w0 w' \<and> (active w' \<or> \<not> (l' \<and> r'))"
proof (cases "(l \<and> \<not> r) \<or> (r \<and> \<not> l)")
  case False
  then show ?thesis using assms by (auto simp: strategy4_def)
next
  case True
  let ?w1 = "w\<lparr>left_address := None, right_address := None\<rparr>"
  have q1: "quiet_run w0 ?w1" by (rule quiet_run_trans[OF assms(1) quiet_run_addresses])
  show ?thesis
  proof (cases "ce_save4 ce")
    case (Some msg)
    then show ?thesis using True q1 by (simp add: strategy4_def Let_def)
  next
    case None
    have q2: "quiet_run w0 (save ?w1)" by (rule quiet_run_trans[OF q1 quiet_run_save])
    show ?thesis
    proof (cases "close_side SLeft l (ce_close4_left ce) (save ?w1)")
      case (Inl wx)
      then show ?thesis using True None close_side_run[OF q2, of SLeft l "ce_close4_left ce"]
        by (simp add: strategy4_def Let_def)
    next
      case (Inr w2)
      have q3: "quiet_run w0 w2" using close_side_run[OF q2, of SLeft l "ce_close4_left ce"] Inr by simp
      show ?thesis
      proof (cases "close_side SRight r (ce_close4_right ce) w2")
        case (Inl wx)
        then show ?thesis using True None Inr close_side_run[OF q3, of SRight r "ce_close4_right ce"]
          by (simp add: strategy4_def Let_def)
      next
        case r3: (Inr w3)
        have q4: "quiet_run w0 w3" using close_side_run[OF q3, of SRight r "ce_close4_right ce"] r3 by simp
        obtain b w4 where sc: "scan_for_glasses (ce_scan4 ce) w3 = (b, w4)"
          by (cases "scan_for_glasses (ce_scan4 ce) w3")
        have q5: "quiet_run w0 w4" by (rule quiet_run_trans[OF q4 quiet_run_scan(1)[OF sc]])
        show ?thesis
        proof (cases b)
          case False
          then show ?thesis using True None Inr r3 sc q5 by (auto simp: strategy4_def Let_def)
        next
          case b: True
          obtain l' r' w' where c: "connect_both (ce_s4_left ce) (ce_s4_right ce) w4 = (l', r', w')"
            by (cases "connect_both (ce_s4_left ce) (ce_s4_right ce) w4") auto
          from quiet_run_connect_both[OF c] q5 quiet_run_scan(2)[OF sc] b
          have "quiet_run w0 w' \<and> active w'"
            by (auto simp: active_def intro: quiet_run_trans)
          then show ?thesis using True None Inr r3 sc b c by (simp add: strategy4_def Let_def)
        qed
      qed
    qed
  qed
qed

lemma chain_snoc: "chain step c (ws @ [x]) = (chain step c ws \<and> step (last (c # ws)) x)"
  by (induction ws arbitrary: c) auto

lemma followsI:
  "state_log w' = state_log w @ ws \<Longrightarrow> chain step (connection_state w) ws \<Longrightarrow>
   connection_state w' = last (connection_state w # ws) \<Longrightarrow> follows step w w'"
  by (simp add: follows_def writes_def)

lemma quiet_run_follows: "quiet_run w w' \<Longrightarrow> follows observed_step w w'"
  unfolding quiet_run_def by (auto intro: followsI chain_quiet)

lemma quiet_run_then_disconnected:
  "quiet_run w w1 \<Longrightarrow> quiet_run w (set_connection_state DISCONNECTED w1)"
  by (rule quiet_run_trans[OF _ quiet_run_set]) simp_all

lemma quiet_run_then_connected:
  assumes "quiet_run w w1" "active w1"
  shows "follows observed_step w (set_connection_state CONNECTED w1)"
proof -
  from assms(1) obtain ws where ws: "state_log w1 = state_log w @ ws" "CONNECTED \<notin> set ws"
      "connection_state w1 = last (connection_state w # ws)"
    by (auto simp: quiet_run_def)
  have "chain observed_step (connection_state w) (ws @ [CONNECTED])"
    using chain_quiet[OF ws(2), of "connection_state w"] assms(2) ws(3)
    by (simp add: chain_snoc observed_step_def active_def del: last.simps)
  then show ?thesis
    by (intro followsI[of _ _ "ws @ [CONNECTED]"]) (simp_all add: set_connection_state_def ws)
qed

lemma settled_failure:
  assumes "quiet_run w0 w1"
  shows "settled w0 (False, set_connection_state DISCONNECTED w1)"
proof -
  have q: "quiet_run w0 (set_connection_state DISCONNECTED w1)"
    by (rule quiet_run_then_disconnected[OF assms])
  have "length (state_log w0) < length (state_log (set_connection_state DISCONNECTED w1))"
    using assms by (auto simp: quiet_run_def set_connection_state_def)
  then show ?thesis using q quiet_run_follows[OF q]
    by (simp add: settled_def quiet_run_def set_connection_state_def)
qed

lemma evaluate_run:
  assumes "quiet_run w0 w" "active w \<or> \<not> (l \<and> r)"
  shows "case evaluate ce (l, r, w) of
           Inl wx \<Rightarrow> quiet_run w0 wx
         | Inr res \<Rightarrow> settled w0 res"
proof (cases "l \<and> r")
  case True
  then have act: "active w" using assms(2) by simp
  show ?thesis
  proof (cases "ce_start ce")
    case (Some msg)
    then show ?thesis using True quiet_run_trans[OF assms(1) quiet_run_emit] by (simp add: evaluate_def)
  next
    case None
    let ?w1 = "(emit [EvStart] w)\<lparr>command_manager_started := True\<rparr>"
    have q1: "quiet_run w0 ?w1"
      by (rule quiet_run_trans[OF assms(1)]) (simp add: quiet_run_def emit_def)
    have a1: "active ?w1" using act by (simp add: active_def emit_def)
    have f: "follows observed_step w0 (set_connection_state CONNECTED ?w1)"
      by (rule quiet_run_then_connected[OF q1 a1])
    have len: "length (state_log w0) < length (state_log (set_connection_state CONNECTED ?w1))"
      using q1 by (auto simp: quiet_run_def set_connection_state_def)
    have "settled w0 (True, (set_connection_state CONNECTED ?w1)\<lparr>monitoring_task := True\<rparr>)"
      using f q1 len by (simp add: settled_def follows_def writes_def quiet_run_def set_connection_state_def)
    then show ?thesis using True None by (simp add: evaluate_def)
  qed
next
  case False
  let ?w1 = "close_partial SRight r (ce_close_right ce) (close_partial SLeft l (ce_close_left ce) w)"
  have "quiet_run w0 ?w1"
    by (rule quiet_run_trans[OF quiet_run_trans[OF assms(1) close_partial_run] close_partial_run])
  from settled_failure[OF this] show ?thesis using False by (auto simp: evaluate_def)
qed

lemma connect_body_run:
  "case connect_body ce w of
     Inl wx \<Rightarrow> quiet_run (set_connection_state CONNECTING w) wx
   | Inr res \<Rightarrow> settled (set_connection_state CONNECTING w) res"
proof -
  let ?w0 = "set_connection_state CONNECTING w"
  obtain l1 r1 w1 where s1: "strategy1 ce (strategy0 ?w0) = (l1, r1, w1)"
    by (cases "strategy1 ce (strategy0 ?w0)") auto
  note i1 = strategy01_run[OF s1]
  show ?thesis
  proof (cases "strategy2 ce (l1, r1, w1)")
    case (Inl wx)
    then show ?thesis using strategy2_run[where ?w0.0="?w0" and w=w1 and ce=ce and l=l1 and r=r1] i1 s1
      by (simp add: connect_body_def on_normal_def)
  next
    case (Inr st2)
    obtain l2 r2 w2 where st2: "st2 = (l2, r2, w2)" by (cases st2) auto
    have i2: "quiet_run ?w0 w2" "active w2"
      using strategy2_run[where ?w0.0="?w0" and w=w1 and ce=ce and l=l1 and r=r1] i1 Inr st2 by simp_all
    show ?thesis
    proof (cases "strategy3 ce (l2, r2, w2)")
      case (Inl wx)
      then show ?thesis using strategy3_run[OF i2, where ce=ce and l=l2 and r=r2] s1 Inr st2
        by (simp add: connect_body_def on_normal_def)
    next
      case r3: (Inr st3)
      obtain l3 r3 w3 where st3: "st3 = (l3, r3, w3)" by (cases st3) auto
      have i3: "quiet_run ?w0 w3" "active w3 \<or> \<not> (l3 \<and> r3)"
        using strategy3_run[OF i2, where ce=ce and l=l2 and r=r2] r3 st3 by simp_all
      show ?thesis
      proof (cases "strategy4 ce (l3, r3, w3)")
        case (Inl wx)
        then show ?thesis using strategy4_run[OF i3, where ce=ce] s1 Inr st2 r3 st3
          by (simp add: connect_body_def on_normal_def)
      next
        case r4: (Inr st4)
        obtain l4 r4 w4 where st4: "st4 = (l4, r4, w4)" by (cases st4) auto
        have i4: "quiet_run ?w0 w4" "active w4 \<or> \<not> (l4 \<and> r4)"
          using strategy4_run[OF i3, where ce=ce] r4 st4 by simp_all
        show ?thesis using evaluate_run[OF i4, where ce=ce] s1 Inr st2 r3 st3 r4 st4
          by (simp add: connect_body_def on_normal_def)
      qed
    qed
  qed
qed

lemma connect_settled: "settled (set_connection_state CONNECTING w) (connect_to_glasses ce w)"
  using connect_body_run[where ce=ce and w=w]
  by (auto simp: connect_to_glasses_def settled_failure split: sum.splits)

lemma chain_append: "chain step c (ws @ vs) = (chain step c ws \<and> chain step (last (c # ws)) vs)"
  by (induction ws arbitrary: c) auto

lemma follows_iff:
  "follows step w w' =
     (\<exists>ws. state_log w' = state_log w @ ws \<and> chain step (connection_state w) ws \<and>
           connection_state w' = last (connection_state w # ws))"
proof
  assume "follows step w w'"
  then show "\<exists>ws. state_log w' = state_log w @ ws \<and> chain step (connection_state w) ws \<and>
           connection_state w' = last (connection_state w # ws)"
    unfolding follows_def by (intro exI[of _ "writes w w'"]) simp
next
  assume "\<exists>ws. state_log w' = state_log w @ ws \<and> chain step (connection_state w) ws \<and>
           connection_state w' = last (connection_state w # ws)"
  then show "follows step w w'" by (elim exE conjE) (rule followsI)
qed

lemma follows_trans:
  assumes "follows step a b" "follows step b c"
  shows "follows step a c"
proof -
  from assms(1) obtain ws where 1: "state_log b = state_log a @ ws" "chain step (connection_state a) ws"
      "connection_state b = last (connection_state a # ws)"
    unfolding follows_iff by blast
  from assms(2) obtain vs where 2: "state_log c = state_log b @ vs" "chain step (connection_state b) vs"
      "connection_state c = last (connection_state b # vs)"
    unfolding follows_iff by blast
  have "state_log c = state_log a @ (ws @ vs)" using 1 2 by simp
  moreover have "chain step (connection_state a) (ws @ vs)" using 1 2 by (simp add: chain_append del: last.simps)
  moreover have "connection_state c = last (connection_state a # (ws @ vs))"
    using 1 2 by (cases vs) simp_all
  ultimately show ?thesis unfolding follows_iff by blast
qed

lemma writes_after_set:
  assumes "follows observed_step (set_connection_state c w) w'" "c \<noteq> CONNECTED"
  shows "follows observed_step w w'" and "hd (writes w w') = c" and "writes w w' \<noteq> []"
proof -
  have f0: "follows observed_step w (set_connection_state c w)"
    by (rule quiet_run_follows[OF quiet_run_set[OF assms(2)]])
  show "follows observed_step w w'" by (rule follows_trans[OF f0 assms(1)])
  from assms(1) obtain ws where "state_log w' = state_log (set_connection_state c w) @ ws"
    unfolding follows_iff by blast
  then have "state_log w' = state_log w @ c # ws" by (simp add: set_connection_state_def)
  then have "writes w w' = c # ws" by (simp add: writes_def)
  then show "hd (writes w w') = c" "writes w w' \<noteq> []" by simp_all
qed

lemma scan_follows:
  "follows observed_step w (snd (scan_for_glasses e w)) \<and>
   hd (writes w (snd (scan_for_glasses e w))) = SCANNING \<and>
   connection_state (snd (scan_for_glasses e w))
     = (if fst (scan_for_glasses e w) then SCANNING else DISCONNECTED)"
proof -
  obtain b w' where s: "scan_for_glasses e w = (b, w')" by (cases "scan_for_glasses e w")
  have "follows observed_step w w'" by (rule quiet_run_follows[OF quiet_run_scan(1)[OF s]])
  moreover have "hd (writes w w') = SCANNING"
    using scan_state(2,3)[OF s] by (cases b) (simp_all add: writes_def)
  moreover have "connection_state w' = (if b then SCANNING else DISCONNECTED)"
    using scan_state(2,3)[OF s] by (cases b) simp_all
  ultimately show ?thesis using s by simp
qed

lemma connect_follows:
  "follows observed_step w (snd (connect_to_glasses ce w)) \<and>
   hd (writes w (snd (connect_to_glasses ce w))) = CONNECTING \<and>
   connection_state (snd (connect_to_glasses ce w))
     = (if fst (connect_to_glasses ce w) then CONNECTED else DISCONNECTED) \<and>
   shutting_down (snd (connect_to_glasses ce w)) = shutting_down w"
proof -
  have s: "settled (set_connection_state CONNECTING w) (connect_to_glasses ce w)"
    by (rule connect_settled)
  then have f: "follows observed_step (set_connection_state CONNECTING w) (snd (connect_to_glasses ce w))"
    by (simp add: settled_def)
  show ?thesis using writes_after_set(1,2)[OF f] s
    by (simp add: settled_def set_connection_state_def)
qed

lemma disconnect_side_same:
  "disconnect_side sd err w = r \<Longrightarrow>
     (case r of Inl w' \<Rightarrow> state_log w' = state_log w \<and> connection_state w' = connection_state w \<and> shutting_down w' = shutting_down w
      | Inr w' \<Rightarrow> state_log w' = state_log w \<and> connection_state w' = connection_state w \<and> shutting_down w' = shutting_down w)"
  by (cases sd) (auto simp: disconnect_side_def world_ops split: option.splits)

lemma disconnect_state:
  "shutting_down (disconnect de w) \<and>
   ((state_log (disconnect de w) = state_log w \<and> connection_state (disconnect de w) = connection_state w) \<or>
    (state_log (disconnect de w) = state_log w @ [DISCONNECTED] \<and> connection_state (disconnect de w) = DISCONNECTED))"
proof -
  let ?w3 = "(emit [EvStop] (if monitoring_task w then w\<lparr>shutting_down := True, monitoring_task := False\<rparr>
                  else w\<lparr>shutting_down := True\<rparr>))\<lparr>command_manager_started := False\<rparr>"
  have b: "state_log ?w3 = state_log w" "connection_state ?w3 = connection_state w" "shutting_down ?w3"
    by (simp_all add: emit_def)
  show ?thesis
  proof (cases "de_stop de")
    case (Some msg)
    then show ?thesis by (simp add: disconnect_def Let_def emit_def)
  next
    case None
    show ?thesis
    proof (cases "disconnect_side SLeft (de_left de) ?w3")
      case (Inl w4)
      then show ?thesis using None disconnect_side_same[OF Inl] b
        by (simp add: disconnect_def Let_def)
    next
      case (Inr w4)
      note k4 = disconnect_side_same[OF Inr]
      show ?thesis
      proof (cases "disconnect_side SRight (de_right de) w4")
        case (Inl w5)
        then show ?thesis using None Inr k4 disconnect_side_same[OF Inl] b
          by (simp add: disconnect_def Let_def)
      next
        case r5: (Inr w5)
        then show ?thesis using None Inr k4 disconnect_side_same[OF r5] b
          by (simp add: disconnect_def Let_def set_connection_state_def)
      qed
    qed
  qed
qed

lemma disconnect_writes:
  "state_log (disconnect de w) = state_log w @ (if disconnect_raises de w then [] else [DISCONNECTED]) \<and>
   connection_state (disconnect de w) = (if disconnect_raises de w then connection_state w else DISCONNECTED)"
  by (auto simp: disconnect_def disconnect_side_def disconnect_raises_def world_ops Let_def
        split: option.splits)

lemma disconnect_follows:
  "follows observed_step w (disconnect de w) \<and>
   writes w (disconnect de w) = (if disconnect_raises de w then [] else [DISCONNECTED])"
  using disconnect_writes[of de w]
  by (auto simp: follows_def writes_def observed_step_def)

lemma reconnect_follows:
  "follows observed_step w (snd (reconnect de ce w)) \<and>
   connection_state (snd (reconnect de ce w))
     = (if fst (reconnect de ce w) then CONNECTED else DISCONNECTED)"
  using follows_trans[of observed_step w "disconnect de w" "snd (connect_to_glasses ce (disconnect de w))"]
    disconnect_follows[of w de] connect_follows[of "disconnect de w" ce]
  by (simp add: reconnect_def)

lemma follows_writes:
  assumes "follows step a b" "follows step b c"
  shows "writes a c = writes a b @ writes b c"
proof -
  from assms(1) have 1: "state_log b = state_log a @ writes a b" by (simp add: follows_def)
  from assms(2) have 2: "state_log c = state_log b @ writes b c" by (simp add: follows_def)
  have "state_log c = state_log a @ (writes a b @ writes b c)" using 1 2 by simp
  then have "drop (length (state_log a)) (state_log c) = writes a b @ writes b c" by simp
  then show ?thesis by (simp add: writes_def)
qed

lemma reconnect_writes:
  "writes w (snd (reconnect de ce w))
     = writes w (disconnect de w) @ writes (disconnect de w) (snd (connect_to_glasses ce (disconnect de w)))"
  using follows_writes[of observed_step w "disconnect de w" "snd (connect_to_glasses ce (disconnect de w))"]
    disconnect_follows[of w de] connect_follows[of "disconnect de w" ce]
  by (simp add: reconnect_def)

lemma scan_writes:
  "writes w (snd (scan_for_glasses e w))
     = (if fst (scan_for_glasses e w) then [SCANNING] else [SCANNING, DISCONNECTED])"
proof -
  obtain b w' where s: "scan_for_glasses e w = (b, w')" by (cases "scan_for_glasses e w")
  show ?thesis using scan_state(2,3)[OF s] s by (cases b) (simp_all add: writes_def)
qed

lemma connect_first_write:
  "take 1 (writes w (snd (connect_to_glasses ce w))) = [CONNECTING]"
proof -
  have s: "settled (set_connection_state CONNECTING w) (connect_to_glasses ce w)"
    by (rule connect_settled)
  then have f: "follows observed_step (set_connection_state CONNECTING w) (snd (connect_to_glasses ce w))"
    by (simp add: settled_def)
  from writes_after_set(2,3)[OF f] show ?thesis
    by (cases "writes w (snd (connect_to_glasses ce w))") simp_all
qed

section \<open>The operations that leave the connection state alone\<close>

lemma check_side_steady:
  "shutting_down (check_side sd w) = shutting_down w \<and> state_log (check_side sd w) = state_log w \<and>
   connection_state (check_side sd w) = connection_state w"
  by (simp add: check_side_def record_error_def split: option.splits)

lemma monitor_steady:
  "shutting_down (snd (monitor_connection_quality fuel w)) = shutting_down w \<and>
   state_log (snd (monitor_connection_quality fuel w)) = state_log w \<and>
   connection_state (snd (monitor_connection_quality fuel w)) = connection_state w"
proof (induction fuel arbitrary: w)
  case 0
  show ?case by simp
next
  case (Suc fuel)
  show ?case
    using Suc.IH[of "emit [EvSleep 10000] (check_side SRight (check_side SLeft w))"]
      check_side_steady[of SLeft w] check_side_steady[of SRight "check_side SLeft w"]
    by (simp add: Let_def emit_def)
qed

lemma heartbeat_round_steady:
  "shutting_down (snd (heartbeat_round now sw)) = shutting_down (snd sw) \<and>
   state_log (snd (heartbeat_round now sw)) = state_log (snd sw) \<and>
   connection_state (snd (heartbeat_round now sw)) = connection_state (snd sw)"
  by (cases sw) (simp add: heartbeat_round_def send_command_def heartbeat_failed_def record_error_def
        emit_def Let_def)

lemma heartbeat_rounds_steady:
  "shutting_down (snd (foldl (\<lambda>sw now. heartbeat_round now sw) sw nows)) = shutting_down (snd sw) \<and>
   state_log (snd (foldl (\<lambda>sw now. heartbeat_round now sw) sw nows)) = state_log (snd sw) \<and>
   connection_state (snd (foldl (\<lambda>sw now. heartbeat_round now sw) sw nows)) = connection_state (snd sw)"
  by (induction nows arbitrary: sw) (simp_all add: heartbeat_round_steady)

lemma handle_disconnect_steady:
  "shutting_down (snd (handle_disconnect sd env w)) = shutting_down w \<and>
   state_log (snd (handle_disconnect sd env w)) = state_log w \<and>
   connection_state (snd (handle_disconnect sd env w)) = connection_state w"
  using link_frame_fields(1,2,3)[OF link_frame_reconnect_loop[where sd=sd and env=env and attempt=0
          and n="nat (reconnect_attempts w)" and w="record_error (title sd @ '' glass disconnected'') w"]]
  by (simp add: handle_disconnect_def record_error_def)

lemma connect_glass_steady:
  "state_log (snd (connect_glass sd env w)) = state_log w \<and>
   connection_state (snd (connect_glass sd env w)) = connection_state w"
  using link_frame_fields(2,3)[OF link_frame_connect_glass[where w=w and sd=sd and env=env]] by simp

lemma heartbeat_loop_steady:
  "state_log (snd (heartbeat_loop nows w)) = state_log w \<and>
   connection_state (snd (heartbeat_loop nows w)) = connection_state w"
  using heartbeat_rounds_steady[of "(0, w)" nows] by (simp add: heartbeat_loop_def)

lemma update_quality_steady:
  "state_log (update_connection_quality sd rssi err w) = state_log w \<and>
   connection_state (update_connection_quality sd rssi err w) = connection_state w"
  by (simp add: update_connection_quality_def Let_def)

lemma documented_step_gaps:
  "\<not> documented_step DISCONNECTED CONNECTING" "\<not> documented_step CONNECTING SCANNING"
  "\<not> documented_step SCANNING CONNECTED"
  by (simp_all add: documented_step_def)

section \<open>The transitions of the connection state\<close>

text \<open>
  Claim C2, as amended. In every run of \<open>scan_for_glasses\<close>, \<open>connect_to_glasses\<close>,
  \<open>disconnect\<close> and \<open>reconnect\<close>, from any state, each value written to the connection
  state follows the one before it by one of these transitions: any state to
  \<open>DISCONNECTED\<close>, any state to \<open>SCANNING\<close>, any state to \<open>CONNECTING\<close>, and
  \<open>CONNECTING\<close> or \<open>SCANNING\<close> to \<open>CONNECTED\<close>. A scan writes \<open>SCANNING\<close> alone and
  ends there when it returns true, and \<open>SCANNING\<close> then \<open>DISCONNECTED\<close> when false;
  \<open>connect_to_glasses\<close> writes \<open>CONNECTING\<close> first, whatever the state, and ends in
  \<open>CONNECTED\<close> when it returns true, in \<open>DISCONNECTED\<close> when false; \<open>disconnect\<close> writes
  \<open>DISCONNECTED\<close> once, and nothing when stopping the command layer or closing a
  connected client raises; \<open>reconnect\<close> writes what \<open>disconnect\<close> writes and then what
  \<open>connect_to_glasses\<close> writes from there. The other operations of the manager,
  \<open>_connect_glass\<close>, \<open>_handle_disconnect\<close>, \<open>_monitor_connection_quality\<close>,
  \<open>_heartbeat_loop\<close> and \<open>_update_connection_quality\<close>, never write the state.
\<close>

theorem connection_state_transitions:
  "follows observed_step w (snd (scan_for_glasses e w)) \<and>
   writes w (snd (scan_for_glasses e w))
     = (if fst (scan_for_glasses e w) then [SCANNING] else [SCANNING, DISCONNECTED]) \<and>
   connection_state (snd (scan_for_glasses e w))
     = (if fst (scan_for_glasses e w) then SCANNING else DISCONNECTED) \<and>
   follows observed_step w (snd (connect_to_glasses ce w)) \<and>
   take 1 (writes w (snd (connect_to_glasses ce w))) = [CONNECTING] \<and>
   connection_state (snd (connect_to_glasses ce w))
     = (if fst (connect_to_glasses ce w) then CONNECTED else DISCONNECTED) \<and>
   follows observed_step w (disconnect de w) \<and>
   writes w (disconnect de w) = (if disconnect_raises de w then [] else [DISCONNECTED]) \<and>
   follows observed_step w (snd (reconnect de ce w)) \<and>
   writes w (snd (reconnect de ce w))
     = writes w (disconnect de w) @
       writes (disconnect de w) (snd (connect_to_glasses ce (disconnect de w))) \<and>
   connection_state (snd (reconnect de ce w))
     = (if fst (reconnect de ce w) then CONNECTED else DISCONNECTED) \<and>
   state_log (snd (connect_glass sd env w)) = state_log w \<and>
   connection_state (snd (connect_glass sd env w)) = connection_state w \<and>
   state_log (snd (handle_disconnect sd henv w)) = state_log w \<and>
   connection_state (snd (handle_disconnect sd henv w)) = connection_state w \<and>
   state_log (snd (monitor_connection_quality fuel w)) = state_log w \<and>
   connection_state (snd (monitor_connection_quality fuel w)) = connection_state w \<and>
   state_log (snd (heartbeat_loop nows w)) = state_log w \<and>
   connection_state (snd (heartbeat_loop nows w)) = connection_state w \<and>
   state_log (update_connection_quality sd rssi err w) = state_log w \<and>
   connection_state (update_connection_quality sd rssi err w) = connection_state w"
  using scan_follows[of w e] scan_writes[of w e] connect_follows[of w ce] connect_first_write[of w ce]
    disconnect_follows[of w de] reconnect_follows[of w de ce] reconnect_writes[of w de ce]
    connect_glass_steady[of sd env w] handle_disconnect_steady[of sd henv w]
    monitor_steady[of fuel w] heartbeat_loop_steady[of nows w] update_quality_steady[of sd rssi err w]
  by simp

text \<open>
  Claim C2 as stated fails: with no stored addresses, a failed pairing check, a scan
  that finds both sides and links that open, \<open>connect_to_glasses\<close> takes the state from
  \<open>DISCONNECTED\<close> straight to \<open>CONNECTING\<close>, then to \<open>SCANNING\<close>, then to \<open>CONNECTED\<close>:
  none of the three transitions is on the documented path.
\<close>

theorem connection_state_transitions_counterexample:
  "connection_state blank_world = DISCONNECTED \<and>
   state_log blank_world = [] \<and>
   state_log (snd (connect_to_glasses
       (all_quiet\<lparr>ce_scan3 := both_found, ce_s3_left := (\<lambda>_. link_up), ce_s3_right := (\<lambda>_. link_up)\<rparr>)
       blank_world)) = [CONNECTING, SCANNING, CONNECTED] \<and>
   \<not> documented_step DISCONNECTED CONNECTING \<and>
   \<not> documented_step CONNECTING SCANNING \<and>
   \<not> documented_step SCANNING CONNECTED \<and>
   \<not> follows documented_step blank_world (snd (connect_to_glasses
       (all_quiet\<lparr>ce_scan3 := both_found, ce_s3_left := (\<lambda>_. link_up), ce_s3_right := (\<lambda>_. link_up)\<rparr>)
       blank_world))"
proof -
  let ?w = "snd (connect_to_glasses
       (all_quiet\<lparr>ce_scan3 := both_found, ce_s3_left := (\<lambda>_. link_up), ce_s3_right := (\<lambda>_. link_up)\<rparr>)
       blank_world)"
  have l: "state_log ?w = [CONNECTING, SCANNING, CONNECTED]"
    by (simp add: connect_defs scan_defs sample_defs world_ops attempt_defs string_defs Let_def)
  have b: "connection_state blank_world = DISCONNECTED" "state_log blank_world = []"
    by (simp_all add: blank_world_def init_def)
  have "\<not> follows documented_step blank_world ?w"
    using l b by (simp add: follows_def writes_def documented_step_def)
  then show ?thesis using l b by (simp add: documented_step_def)
qed

section \<open>The shutdown flag\<close>

lemma perform_keeps_flag: "shutting_down w \<Longrightarrow> shutting_down (perform w op)"
proof (cases op)
  case (OpScan e)
  then show "shutting_down w \<Longrightarrow> ?thesis"
    using scan_state(1)[of e w "fst (scan_for_glasses e w)" "snd (scan_for_glasses e w)"]
    by (simp add: session_def)
next
  case (OpConnect ce)
  then show "shutting_down w \<Longrightarrow> ?thesis" using connect_follows[of w ce] by simp
next
  case (OpDisconnect de)
  then show "shutting_down w \<Longrightarrow> ?thesis" using disconnect_state[of de w] by simp
next
  case (OpReconnect de ce)
  then show "shutting_down w \<Longrightarrow> ?thesis"
    using connect_follows[of "disconnect de w" ce] disconnect_state[of de w] by (simp add: reconnect_def)
next
  case (OpConnectGlass sd env)
  then show "shutting_down w \<Longrightarrow> ?thesis"
    using link_frame_fields(1)[OF link_frame_connect_glass[where w=w and sd=sd and env=env]] by simp
next
  case (OpHandleDisconnect sd env)
  then show "shutting_down w \<Longrightarrow> ?thesis" using handle_disconnect_steady[of sd env w] by simp
next
  case (OpMonitor fuel)
  then show "shutting_down w \<Longrightarrow> ?thesis" using monitor_steady[of fuel w] by simp
next
  case (OpHeartbeat nows)
  then show "shutting_down w \<Longrightarrow> ?thesis"
    using heartbeat_rounds_steady[of "(0, w)" nows] by (simp add: heartbeat_loop_def)
next
  case (OpUpdateQuality sd rssi error)
  then show "shutting_down w \<Longrightarrow> ?thesis" by (simp add: update_connection_quality_def Let_def)
qed

lemma perform_all_keeps_flag: "shutting_down w \<Longrightarrow> shutting_down (perform_all ops w)"
  unfolding perform_all_def by (induction ops arbitrary: w) (simp_all add: perform_keeps_flag)

lemma reconnect_sets_flag: "shutting_down (snd (reconnect de ce w))"
  using connect_follows[of "disconnect de w" ce] disconnect_state[of de w] by (simp add: reconnect_def)

text \<open>
  Claim C10. \<open>_shutting_down\<close> is false after \<open>__init__\<close> and true after \<open>disconnect\<close>
  and therefore after \<open>reconnect\<close>, whose second half, \<open>connect_to_glasses\<close>, leaves the
  flag as it finds it. No operation of the manager resets it: after \<open>disconnect\<close> or
  \<open>reconnect\<close> and any further operations, the flag is still true, every call of
  \<open>_handle_disconnect\<close> returns \<open>False\<close> without touching the state, and
  \<open>_monitor_connection_quality\<close> returns at the first test of its loop condition.
\<close>

theorem shutting_down_latched:
  "shutting_down (init la ra ln rn attempts delay timeout interval) = False \<and>
   shutting_down (disconnect de w) \<and>
   shutting_down (snd (reconnect de ce w)) \<and>
   shutting_down (snd (connect_to_glasses ce w)) = shutting_down w \<and>
   shutting_down (perform_all ops (disconnect de w)) \<and>
   shutting_down (perform_all ops (snd (reconnect de ce w))) \<and>
   handle_disconnect sd env (perform_all ops (disconnect de w))
     = (False, perform_all ops (disconnect de w)) \<and>
   handle_disconnect sd env (perform_all ops (snd (reconnect de ce w)))
     = (False, perform_all ops (snd (reconnect de ce w))) \<and>
   monitor_connection_quality (Suc fuel) (perform_all ops (disconnect de w))
     = (True, perform_all ops (disconnect de w)) \<and>
   monitor_connection_quality (Suc fuel) (perform_all ops (snd (reconnect de ce w)))
     = (True, perform_all ops (snd (reconnect de ce w)))"
proof -
  have d: "shutting_down (disconnect de w)" using disconnect_state[of de w] by simp
  have r: "shutting_down (snd (reconnect de ce w))" by (rule reconnect_sets_flag)
  have pd: "shutting_down (perform_all ops (disconnect de w))" by (rule perform_all_keeps_flag[OF d])
  have pr: "shutting_down (perform_all ops (snd (reconnect de ce w)))" by (rule perform_all_keeps_flag[OF r])
  have c: "shutting_down (snd (connect_to_glasses ce w)) = shutting_down w"
    using connect_follows[of w ce] by simp
  show ?thesis using d r pd pr c by (simp add: init_def handle_disconnect_def)
qed

section \<open>The retry schedule of \<open>_connect_glass\<close>\<close>

lemma verify_loop_inner: "inner (snd (verify_loop v attempt n))"
proof (induction n arbitrary: attempt)
  case 0
  show ?case by (simp add: inner_def)
next
  case (Suc n)
  obtain ok evs where r: "verify_loop v (Suc attempt) n = (ok, evs)"
    by (cases "verify_loop v (Suc attempt) n")
  have "inner evs" using Suc.IH[of "Suc attempt"] r by simp
  then show ?case using r by (simp add: inner_def split: verify_try.splits)
qed

lemma after_open_trace:
  "\<exists>evs. trace (snd (after_open sd address a c w)) = trace w @ evs \<and> inner evs"
proof -
  obtain ok evs where v: "verify_connection (a_verify a) = (ok, evs)"
    by (cases "verify_connection (a_verify a)")
  have i: "inner evs" using verify_loop_inner[of "a_verify a" 0 max_retries] v
    by (simp add: verify_connection_def)
  have 1: "inner (evs @ [EvNotify sd])" "inner (evs @ [EvCloseClient sd])" "inner []"
    using i by (simp_all add: inner_def)
  show ?thesis
    using v 1
    by (cases sd) (auto simp: after_open_def Let_def world_ops split: option.splits)
qed

lemma attempt_body_trace:
  "\<exists>evs. trace (snd (attempt_body sd address a w)) = trace w @ evs \<and>
         filter is_retry_event evs = [] \<and> length (filter is_open_event evs) \<le> 2"
proof -
  let ?w1 = "emit [EvOpen sd address (connection_timeout w)] w"
  let ?w2 = "emit [EvOpen sd address 15000] ?w1"
  have t1: "trace ?w1 = trace w @ [EvOpen sd address (connection_timeout w)]"
    and t2: "trace ?w2 = trace w @ [EvOpen sd address (connection_timeout w), EvOpen sd address 15000]"
    by (simp_all add: emit_def)
  have a1: "\<And>c. \<exists>evs. trace (snd (after_open sd address a c ?w1)) = trace w @ evs \<and>
         filter is_retry_event evs = [] \<and> length (filter is_open_event evs) \<le> 2"
  proof -
    fix c
    from after_open_trace[of sd address a c ?w1] obtain evs where
      e: "trace (snd (after_open sd address a c ?w1)) = trace ?w1 @ evs" "inner evs" by blast
    show "\<exists>evs. trace (snd (after_open sd address a c ?w1)) = trace w @ evs \<and>
         filter is_retry_event evs = [] \<and> length (filter is_open_event evs) \<le> 2"
      using e t1 by (intro exI[of _ "EvOpen sd address (connection_timeout w) # evs"]) (simp add: inner_def)
  qed
  have a2: "\<And>c. \<exists>evs. trace (snd (after_open sd address a c ?w2)) = trace w @ evs \<and>
         filter is_retry_event evs = [] \<and> length (filter is_open_event evs) \<le> 2"
  proof -
    fix c
    from after_open_trace[of sd address a c ?w2] obtain evs where
      e: "trace (snd (after_open sd address a c ?w2)) = trace ?w2 @ evs" "inner evs" by blast
    show "\<exists>evs. trace (snd (after_open sd address a c ?w2)) = trace w @ evs \<and>
         filter is_retry_event evs = [] \<and> length (filter is_open_event evs) \<le> 2"
      using e t2
      by (intro exI[of _ "EvOpen sd address (connection_timeout w) # EvOpen sd address 15000 # evs"])
         (simp add: inner_def)
  qed
  have b1: "\<exists>evs. trace ?w1 = trace w @ evs \<and>
         filter is_retry_event evs = [] \<and> length (filter is_open_event evs) \<le> 2"
    using t1 by (intro exI[of _ "[EvOpen sd address (connection_timeout w)]"]) simp
  have b2: "\<exists>evs. trace ?w2 = trace w @ evs \<and>
         filter is_retry_event evs = [] \<and> length (filter is_open_event evs) \<le> 2"
    using t2 by (intro exI[of _ "[EvOpen sd address (connection_timeout w), EvOpen sd address 15000]"]) simp
  show ?thesis
    using a1 a2 b1 b2 by (simp add: attempt_body_def Let_def split: open_result.splits)
qed

lemma schedule_Suc:
  "schedule sd d a (Suc k) = EvAttempt sd a # (if k = 0 then [] else EvRetrySleep d # schedule sd d (Suc a) k)"
  by (cases k) simp_all


lemma retry_sleep_trace:
  "reconnect_attempts w = int (Suc attempt + n) \<Longrightarrow>
   trace (retry_sleep attempt w) = trace w @ (if n = 0 then [] else [EvRetrySleep (reconnect_delay w)]) \<and>
   reconnect_attempts (retry_sleep attempt w) = reconnect_attempts w \<and>
   reconnect_delay (retry_sleep attempt w) = reconnect_delay w"
  by (simp add: retry_sleep_def emit_def)

lemma scheduled_step:
  assumes tr: "trace w1 = trace w @ EvAttempt sd attempt # evs1"
    and i1: "filter is_retry_event evs1 = []" "length (filter is_open_event evs1) \<le> 2"
    and ra: "reconnect_attempts w1 = int (Suc attempt + n)" "reconnect_delay w1 = reconnect_delay w"
    and ih: "scheduled sd (Suc attempt) n (retry_sleep attempt w1) res"
  shows "scheduled sd attempt (Suc n) w res"
proof -
  let ?w2 = "retry_sleep attempt w1"
  let ?sl = "if n = 0 then [] else [EvRetrySleep (reconnect_delay w)]"
  note rs = retry_sleep_trace[OF ra(1)]
  from ih obtain evs k where e: "trace (snd res) = trace ?w2 @ evs" "k \<le> n"
      "filter is_retry_event evs = schedule sd (reconnect_delay ?w2) (Suc attempt) k"
      "length (filter is_open_event evs) \<le> 2 * k" "fst res \<or> k = n" "fst res \<longrightarrow> 0 < k"
    unfolding scheduled_def by blast
  have d: "reconnect_delay ?w2 = reconnect_delay w" using rs ra(2) by simp
  have kn: "n \<noteq> 0 \<Longrightarrow> k \<noteq> 0" using e(5,6) by auto
  have k0: "n = 0 \<Longrightarrow> k = 0" using e(2) by simp
  have t: "trace (snd res) = trace w @ (EvAttempt sd attempt # evs1 @ ?sl @ evs)"
    using e(1) rs tr ra(2) by simp
  have f: "filter is_retry_event (EvAttempt sd attempt # evs1 @ ?sl @ evs)
             = schedule sd (reconnect_delay w) attempt (Suc k)"
    using i1(1) e(3) d kn k0 by (cases "n = 0") (simp_all add: schedule_Suc)
  have o: "length (filter is_open_event (EvAttempt sd attempt # evs1 @ ?sl @ evs)) \<le> 2 * Suc k"
    using i1(2) e(4) by simp
  show ?thesis
    unfolding scheduled_def
    using t f o e(2,5) by (intro exI[of _ "EvAttempt sd attempt # evs1 @ ?sl @ evs"] exI[of _ "Suc k"]) auto
qed

lemma connect_attempts_schedule:
  "reconnect_attempts w = int (attempt + n) \<Longrightarrow>
   scheduled sd attempt n w (connect_attempts sd address env attempt n w)"
proof (induction n arbitrary: attempt w)
  case 0
  show ?case unfolding scheduled_def by (intro exI[of _ "[]"] exI[of _ "0"]) simp
next
  case (Suc n)
  let ?w0 = "emit [EvAttempt sd attempt] w"
  obtain out w1 where b: "attempt_body sd address (env attempt) ?w0 = (out, w1)"
    by (cases "attempt_body sd address (env attempt) ?w0")
  from attempt_body_trace[of sd address "env attempt" ?w0] b obtain evs1 where
    e1: "trace w1 = trace ?w0 @ evs1" "filter is_retry_event evs1 = []"
        "length (filter is_open_event evs1) \<le> 2"
    by auto
  have tr: "trace w1 = trace w @ EvAttempt sd attempt # evs1" using e1(1) by (simp add: emit_def)
  have lf: "link_frame w w1"
    using link_frame_trans[OF link_frame_emit[of w "[EvAttempt sd attempt]"]
            link_frame_attempt_body[of ?w0 sd address "env attempt"]] b by simp
  have ra: "reconnect_attempts w1 = int (Suc attempt + n)" "reconnect_delay w1 = reconnect_delay w"
    using link_frame_fields(9,10)[OF lf] Suc.prems by simp_all
  show ?case
  proof (cases out)
    case Succeeded
    have "scheduled sd attempt (Suc n) w (True, w1)"
      unfolding scheduled_def using tr e1(2,3)
      by (intro exI[of _ "EvAttempt sd attempt # evs1"] exI[of _ "Suc 0"]) simp
    then show ?thesis using b Succeeded by simp
  next
    case Failed
    have ra2: "reconnect_attempts (retry_sleep attempt w1) = int (Suc attempt + n)"
      using retry_sleep_trace[OF ra(1)] ra(1) by simp
    from scheduled_step[OF tr e1(2,3) ra Suc.IH[OF ra2]]
    show ?thesis using b Failed by simp
  next
    case (Raised msg)
    let ?w1c = "emit [EvClassified (classify msg)] w1"
    have trc: "trace ?w1c = trace w @ EvAttempt sd attempt # (evs1 @ [EvClassified (classify msg)])"
      using tr by (simp add: emit_def)
    have ic: "filter is_retry_event (evs1 @ [EvClassified (classify msg)]) = []"
        "length (filter is_open_event (evs1 @ [EvClassified (classify msg)])) \<le> 2"
      using e1(2,3) by simp_all
    have rac: "reconnect_attempts ?w1c = int (Suc attempt + n)" "reconnect_delay ?w1c = reconnect_delay w"
      using ra by (simp_all add: emit_def)
    have ra2: "reconnect_attempts (retry_sleep attempt ?w1c) = int (Suc attempt + n)"
      using retry_sleep_trace[OF rac(1)] rac(1) by simp
    from scheduled_step[OF trc ic rac Suc.IH[OF ra2]]
    show ?thesis using b Raised by simp
  qed
qed

lemma sample_messages:
  "contains ''not found'' (lower ''timeout'') = False"
  "contains ''not found'' (lower ''Device not found'') = True"
  "classify ''timeout'' = Timeout"
  "classify ''Device not found'' = NotFound"
  by (simp_all add: classify_def string_defs)

lemmas attempt_steps = connect_glass_def attempt_body_def after_open_def verify_connection_def
  max_retries_def retry_sleep_def numeral_3_eq_3 sample_messages

text \<open>
  Claim C8. Without a stored address for the side (\<open>None\<close> or the empty string),
  \<open>_connect_glass\<close> returns \<open>False\<close> at once and leaves the state and the trace as they
  were: nothing is opened, nothing retried. With an address it makes \<open>k\<close> attempts,
  \<open>k\<close> at most \<open>reconnect_attempts\<close>, numbered from 0, with one sleep of
  \<open>reconnect_delay\<close> between two consecutive attempts and none after the last, and at most
  two opens per attempt (the second is the fallback after a "not found" error). When the
  call fails, all \<open>reconnect_attempts\<close> attempts were made, whatever the failures were:
  the class of a failure is only logged.
\<close>

theorem connect_glass_retry_policy:
  "(\<not> truthy (get_address sd w) \<longrightarrow> connect_glass sd env w = (False, w)) \<and>
   (truthy (get_address sd w) \<longrightarrow>
      (\<exists>evs k. trace (snd (connect_glass sd env w)) = trace w @ evs \<and>
         k \<le> nat (reconnect_attempts w) \<and>
         filter is_retry_event evs = schedule sd (reconnect_delay w) 0 k \<and>
         length (filter is_open_event evs) \<le> 2 * k \<and>
         (fst (connect_glass sd env w) \<or> k = nat (reconnect_attempts w)) \<and>
         (fst (connect_glass sd env w) \<longrightarrow> 0 < k)))"
proof (intro conjI impI)
  assume "\<not> truthy (get_address sd w)"
  then show "connect_glass sd env w = (False, w)"
    by (auto simp: connect_glass_def truthy_def split: option.splits)
next
  assume t: "truthy (get_address sd w)"
  then obtain address where a: "get_address sd w = Some address" "address \<noteq> []"
    by (auto simp: truthy_def split: option.splits)
  have c: "connect_glass sd env w = connect_attempts sd address env 0 (nat (reconnect_attempts w)) w"
    using a by (simp add: connect_glass_def)
  show "\<exists>evs k. trace (snd (connect_glass sd env w)) = trace w @ evs \<and>
         k \<le> nat (reconnect_attempts w) \<and>
         filter is_retry_event evs = schedule sd (reconnect_delay w) 0 k \<and>
         length (filter is_open_event evs) \<le> 2 * k \<and>
         (fst (connect_glass sd env w) \<or> k = nat (reconnect_attempts w)) \<and>
         (fst (connect_glass sd env w) \<longrightarrow> 0 < k)"
  proof (cases "0 \<le> reconnect_attempts w")
    case True
    then have "reconnect_attempts w = int (0 + nat (reconnect_attempts w))" by simp
    from connect_attempts_schedule[OF this, of sd address env]
    show ?thesis unfolding scheduled_def c .
  next
    case False
    then have "nat (reconnect_attempts w) = 0" by simp
    then show ?thesis unfolding c by (intro exI[of _ "[]"] exI[of _ "0"]) simp
  qed
qed

theorem connect_glass_retry_policy_witness:
  "\<not> truthy (get_address SLeft blank_world) \<and>
   connect_glass SLeft flaky_link blank_world = (False, blank_world) \<and>
   truthy (get_address SLeft (paired_world\<lparr>reconnect_attempts := 3\<rparr>)) \<and>
   fst (connect_glass SLeft flaky_link (paired_world\<lparr>reconnect_attempts := 3\<rparr>)) \<and>
   filter is_retry_event (trace (snd (connect_glass SLeft flaky_link (paired_world\<lparr>reconnect_attempts := 3\<rparr>))))
     = [EvAttempt SLeft 0, EvRetrySleep 500, EvAttempt SLeft 1, EvRetrySleep 500, EvAttempt SLeft 2] \<and>
   filter is_retry_event (trace (snd (connect_glass SLeft (\<lambda>_. link_down) (paired_world\<lparr>reconnect_attempts := 3\<rparr>))))
     = schedule SLeft 500 0 3 \<and>
   \<not> fst (connect_glass SLeft (\<lambda>_. link_down) (paired_world\<lparr>reconnect_attempts := 3\<rparr>))"
  using connect_glass_retry_policy[of SLeft blank_world flaky_link]
    connect_glass_retry_policy[of SLeft "paired_world\<lparr>reconnect_attempts := 3\<rparr>" flaky_link]
  by (simp add: flaky_link_def sample_defs world_ops attempt_steps truthy_def)

section \<open>Which device a scan assigns to which side\<close>

lemma host_lines:
  "strip (stdout host_listing) \<noteq> []"
  "split_lines (strip (stdout host_listing)) = [''Name'', ''----'', ''Even G1_L_1'', ''Even G1_R_2'']"
  by (simp_all add: host_listing_def strip_def is_space_def)

lemma host_names:
  "strip ''Name'' = ''Name''" "strip ''----'' = ''----''"
  "strip ''Even G1_L_1'' = ''Even G1_L_1''" "strip ''Even G1_R_2'' = ''Even G1_R_2''"
  "upper ''Even G1_L_1'' = ''EVEN G1_L_1''" "upper ''Even G1_R_2'' = ''EVEN G1_R_2''"
  by (simp_all add: strip_def is_space_def upper_def upper_char_def lowers_def uppers_def)

lemma host_devices:
  "\<not> truthy (left_address w) \<Longrightarrow> \<not> truthy (right_address w) \<Longrightarrow>
   get_windows_connected_g1_devices (Some host_listing) (Some host_listing) w
     = [(''Even G1_L_1'', left_address w), (''Even G1_R_2'', right_address w)]"
  by (simp add: get_windows_connected_g1_devices_def has_output_def host_lines host_names
        parse_pnp_line_def parse_wmi_line_def Let_def)
     (simp add: host_listing_def)


lemma host_only_scan:
  "scan_for_glasses host_only blank_world =
     (True, save ((set_connection_state SCANNING blank_world)
              \<lparr>left_address := None, left_name := Some ''Even G1_L_1'',
               right_address := None, right_name := Some ''Even G1_R_2''\<rparr>))"
proof -
  let ?w1 = "set_connection_state SCANNING blank_world"
  have a: "\<not> truthy (left_address ?w1)" "\<not> truthy (right_address ?w1)"
    by (simp_all add: blank_world_def init_def set_connection_state_def truthy_def)
  have n: "left_address ?w1 = None" "right_address ?w1 = None"
    by (simp_all add: blank_world_def init_def set_connection_state_def)
  show ?thesis
    by (simp add: scan_for_glasses_def host_only_def host_devices[OF a] n assign_connected_def
          scan_finish_def host_names Let_def)
qed

lemma classify_device_entries:
  "classify_device (g, lf, rf, w) d = (g', lf', rf', w') \<Longrightarrow>
     g' = g @ filter is_g1 [d] \<and>
     left_entry w' \<in> insert (left_entry w) (entry ` set (filter is_g1 [d])) \<and>
     right_entry w' \<in> insert (right_entry w) (entry ` set (filter is_g1 [d]))"
  by (auto simp: classify_device_def left_entry_def right_entry_def entry_def assign_left_def
        assign_right_def split: if_splits)

lemma foldl_classify_entries:
  "foldl classify_device (g, lf, rf, w) ds = (g', lf', rf', w') \<Longrightarrow>
     g' = g @ candidates ds \<and>
     left_entry w' \<in> insert (left_entry w) (entry ` set (candidates ds)) \<and>
     right_entry w' \<in> insert (right_entry w) (entry ` set (candidates ds))"
proof (induction ds arbitrary: g lf rf w)
  case Nil
  then show ?case by (simp add: candidates_def)
next
  case (Cons d ds)
  obtain g1 lf1 rf1 w1 where s: "classify_device (g, lf, rf, w) d = (g1, lf1, rf1, w1)"
    by (cases "classify_device (g, lf, rf, w) d") auto
  from Cons.prems s have "foldl classify_device (g1, lf1, rf1, w1) ds = (g', lf', rf', w')" by simp
  from Cons.IH[OF this] classify_device_entries[OF s] show ?case
    by (auto simp: candidates_def)
qed

lemma arbitrate_entries:
  "arbitrate g (lf, rf, w) = (lf', rf', w') \<Longrightarrow>
     left_entry w' \<in> insert (left_entry w) (entry ` set g) \<and>
     right_entry w' \<in> insert (right_entry w) (entry ` set g)"
proof -
  let ?av = "filter (\<lambda>d. Some (d_address d) \<notin> set [left_address w, right_address w]) g"
  have sub: "set ?av \<subseteq> set g" by auto
  assume a: "arbitrate g (lf, rf, w) = (lf', rf', w')"
  show ?thesis
  proof (cases ?av)
    case Nil
    then show ?thesis using a by (auto simp: arbitrate_def Let_def split: if_splits)
  next
    case (Cons d rest)
    then have d: "d \<in> set g" using sub by (metis list.set_intros(1) subsetD)
    have r: "set rest \<subseteq> set g" using sub Cons by (metis set_subset_Cons subset_trans)
    show ?thesis
      using a Cons d r
      by (auto simp: arbitrate_def Let_def left_entry_def right_entry_def entry_def assign_left_def
            assign_right_def split: if_splits list.splits)
  qed
qed

lemma scan_finish_entries:
  "left_entry (snd (scan_finish e (lf, rf, w))) = left_entry w \<and>
   right_entry (snd (scan_finish e (lf, rf, w))) = right_entry w"
  by (simp add: scan_finish_def left_entry_def right_entry_def world_ops split: option.splits)

lemma classify_device_keeps_left:
  "classify_device (g, True, rf, w) d = (g1, lf1, rf1, w1) \<Longrightarrow> lf1 \<and> left_entry w1 = left_entry w"
  by (auto simp: classify_device_def left_entry_def assign_right_def split: if_splits)

lemma classify_keeps_left:
  "foldl classify_device (g, True, rf, w) ds = (g', lf', rf', w') \<Longrightarrow>
     lf' \<and> left_entry w' = left_entry w"
proof (induction ds arbitrary: g rf w)
  case Nil
  then show ?case by simp
next
  case (Cons d ds)
  obtain g1 lf1 rf1 w1 where s: "classify_device (g, True, rf, w) d = (g1, lf1, rf1, w1)"
    by (cases "classify_device (g, True, rf, w) d") auto
  note k = classify_device_keeps_left[OF s]
  from Cons.prems s k have "foldl classify_device (g1, True, rf1, w1) ds = (g', lf', rf', w')" by simp
  from Cons.IH[OF this] k show ?case by simp
qed

lemma classify_first_left:
  "find (\<lambda>d. is_g1 d \<and> named_left d) ds = Some d \<Longrightarrow>
   foldl classify_device (g, False, rf, w) ds = (g', lf', rf', w') \<Longrightarrow>
     lf' \<and> left_entry w' = entry d"
proof (induction ds arbitrary: g rf w)
  case Nil
  then show ?case by simp
next
  case (Cons x xs)
  show ?case
  proof (cases "is_g1 x \<and> named_left x")
    case True
    then have dx: "d = x" using Cons.prems(1) by simp
    have s: "classify_device (g, False, rf, w) x = (g @ [x], True, rf, assign_left x w)"
      using True by (simp add: classify_device_def)
    have "foldl classify_device (g @ [x], True, rf, assign_left x w) xs = (g', lf', rf', w')"
      using Cons.prems(2) s by simp
    from classify_keeps_left[OF this] show ?thesis
      using dx by (simp add: left_entry_def entry_def assign_left_def)
  next
    case False
    then have f: "find (\<lambda>d. is_g1 d \<and> named_left d) xs = Some d" using Cons.prems(1) by auto
    have "\<exists>g1 rf1 w1. classify_device (g, False, rf, w) x = (g1, False, rf1, w1)"
      using False by (auto simp: classify_device_def)
    then obtain g1 rf1 w1 where s: "classify_device (g, False, rf, w) x = (g1, False, rf1, w1)"
      by blast
    have "foldl classify_device (g1, False, rf1, w1) xs = (g', lf', rf', w')"
      using Cons.prems(2) s by simp
    from Cons.IH[OF f this] show ?thesis .
  qed
qed

lemma arbitrate_keeps_left:
  "arbitrate g (True, rf, w) = (lf', rf', w') \<Longrightarrow> left_entry w' = left_entry w"
  by (auto simp: arbitrate_def Let_def left_entry_def assign_right_def split: if_splits list.splits)

lemma assign_connected_cases:
  "assign_connected (lf, rf, w) h =
     (if host_left h then (True, rf, w\<lparr>left_address := snd h, left_name := Some (fst h)\<rparr>)
      else if host_right h then (lf, True, w\<lparr>right_address := snd h, right_name := Some (fst h)\<rparr>)
      else (lf, rf, w))"
  by (cases h) (simp add: assign_connected_def host_left_def host_right_def)

lemma foldl_assign_sides:
  "foldl assign_connected (lf, rf, w) hs = (lf', rf', w') \<Longrightarrow>
     lf' = (lf \<or> (\<exists>h \<in> set hs. host_left h)) \<and>
     rf' = (rf \<or> (\<exists>h \<in> set hs. host_right h)) \<and>
     left_entry w' = (case find host_left (rev hs) of None \<Rightarrow> left_entry w | Some h \<Rightarrow> host_entry h) \<and>
     right_entry w' = (case find host_right (rev hs) of None \<Rightarrow> right_entry w | Some h \<Rightarrow> host_entry h)"
proof (induction hs arbitrary: lf' rf' w' rule: rev_induct)
  case Nil
  then show ?case by simp
next
  case (snoc h hs)
  obtain lf1 rf1 w1 where s: "foldl assign_connected (lf, rf, w) hs = (lf1, rf1, w1)"
    by (cases "foldl assign_connected (lf, rf, w) hs") auto
  note ih = snoc.IH[OF s]
  have st: "assign_connected (lf1, rf1, w1) h = (lf', rf', w')" using snoc.prems s by simp
  show ?case
  proof (cases "host_left h")
    case True
    then have nr: "\<not> host_right h" by (simp add: host_right_def)
    from st True have "lf' = True" "rf' = rf1" "w' = w1\<lparr>left_address := snd h, left_name := Some (fst h)\<rparr>"
      by (simp_all add: assign_connected_cases)
    then show ?thesis using ih True nr
      by (auto simp: left_entry_def right_entry_def host_entry_def)
  next
    case False
    show ?thesis
    proof (cases "host_right h")
      case True
      from st False True have "lf' = lf1" "rf' = True" "w' = w1\<lparr>right_address := snd h, right_name := Some (fst h)\<rparr>"
        by (simp_all add: assign_connected_cases)
      then show ?thesis using ih False True
        by (auto simp: left_entry_def right_entry_def host_entry_def)
    next
      case nr: False
      from st False nr have "lf' = lf1" "rf' = rf1" "w' = w1"
        by (simp_all add: assign_connected_cases)
      then show ?thesis using ih False nr by auto
    qed
  qed
qed

lemma classify_device_keeps_right:
  "classify_device (g, lf, True, w) d = (g1, lf1, rf1, w1) \<Longrightarrow> rf1 \<and> right_entry w1 = right_entry w"
  by (auto simp: classify_device_def right_entry_def assign_left_def split: if_splits)

lemma classify_keeps_right:
  "foldl classify_device (g, lf, True, w) ds = (g', lf', rf', w') \<Longrightarrow>
     rf' \<and> right_entry w' = right_entry w"
proof (induction ds arbitrary: g lf w)
  case Nil
  then show ?case by simp
next
  case (Cons d ds)
  obtain g1 lf1 rf1 w1 where s: "classify_device (g, lf, True, w) d = (g1, lf1, rf1, w1)"
    by (cases "classify_device (g, lf, True, w) d") auto
  note k = classify_device_keeps_right[OF s]
  from Cons.prems s k have "foldl classify_device (g1, lf1, True, w1) ds = (g', lf', rf', w')" by simp
  from Cons.IH[OF this] k show ?case by simp
qed

lemma classify_right:
  "foldl classify_device (g, lf, False, w) ds = (g', lf', rf', w') \<Longrightarrow>
     (rf' \<longrightarrow> right_entry w' \<in> entry ` {d \<in> set (candidates ds). named_right d}) \<and>
     (\<not> rf' \<longrightarrow> right_entry w' = right_entry w) \<and>
     ((\<exists>d \<in> set (candidates ds). named_right d \<and> \<not> named_left d) \<longrightarrow> rf')"
proof (induction ds arbitrary: g lf w)
  case Nil
  then show ?case by (simp add: candidates_def)
next
  case (Cons x xs)
  obtain g1 lf1 rf1 w1 where s: "classify_device (g, lf, False, w) x = (g1, lf1, rf1, w1)"
    by (cases "classify_device (g, lf, False, w) x") auto
  have f: "foldl classify_device (g1, lf1, rf1, w1) xs = (g', lf', rf', w')"
    using Cons.prems s by simp
  show ?case
  proof (cases rf1)
    case True
    then have x: "is_g1 x" "named_right x" "right_entry w1 = entry x"
      using s by (auto simp: classify_device_def right_entry_def entry_def assign_right_def split: if_splits)
    from classify_keeps_right[of g1 lf1 w1 xs g' lf' rf' w'] f True
    have "rf'" "right_entry w' = right_entry w1" by simp_all
    then show ?thesis using x by (auto simp: candidates_def)
  next
    case False
    then have x: "right_entry w1 = right_entry w" "\<not> (is_g1 x \<and> named_right x \<and> \<not> named_left x)"
      using s by (auto simp: classify_device_def right_entry_def assign_left_def split: if_splits)
    from Cons.IH[of g1 lf1 w1] f False
    have ih: "(rf' \<longrightarrow> right_entry w' \<in> entry ` {d \<in> set (candidates xs). named_right d})"
       "(\<not> rf' \<longrightarrow> right_entry w' = right_entry w1)"
       "((\<exists>d \<in> set (candidates xs). named_right d \<and> \<not> named_left d) \<longrightarrow> rf')"
      by simp_all
    show ?thesis using ih x by (auto simp: candidates_def)
  qed
qed

lemma arbitrate_keeps_right:
  "arbitrate g (lf, True, w) = (lf', rf', w') \<Longrightarrow> right_entry w' = right_entry w"
  by (auto simp: arbitrate_def Let_def right_entry_def assign_left_def split: if_splits list.splits)

lemma scan_entries_start:
  "left_entry (emit evs (set_connection_state c w)) = left_entry w"
  "right_entry (emit evs (set_connection_state c w)) = right_entry w"
  "left_entry (set_connection_state c w) = left_entry w"
  "right_entry (set_connection_state c w) = right_entry w"
  "left_entry (emit evs w) = left_entry w"
  "right_entry (emit evs w) = right_entry w"
  by (simp_all add: left_entry_def right_entry_def world_ops)

lemma find_some_mem: "find P xs = Some x \<Longrightarrow> x \<in> set xs \<and> P x"
  by (induction xs) (auto split: if_splits)

lemma left_lines:
  "strip (stdout left_listing) \<noteq> []"
  "split_lines (strip (stdout left_listing)) = [''Name'', ''----'', ''Even G1_L_1'']"
  by (simp_all add: left_listing_def strip_def is_space_def)

lemma stored_addresses:
  "left_address (set_connection_state SCANNING paired_world) = Some ''A''"
  "right_address (set_connection_state SCANNING paired_world) = Some ''B''"
  by (simp_all add: paired_world_def init_def set_connection_state_def)

lemma left_listed_reported:
  "reported left_listed paired_world = [(''Even G1_L_1'', Some ''A'')]"
  by (simp add: reported_def left_listed_def get_windows_connected_g1_devices_def has_output_def
        left_lines host_names parse_pnp_line_def stored_addresses truthy_def Let_def)
     (simp add: left_listing_def)

lemma host_only_reported:
  "reported host_only paired_world = [(''Even G1_L_1'', Some ''A''), (''Even G1_R_2'', Some ''B'')]"
  by (simp add: reported_def host_only_def get_windows_connected_g1_devices_def has_output_def
        host_lines host_names parse_pnp_line_def stored_addresses truthy_def Let_def)
     (simp add: host_listing_def)

lemma host_sides:
  "host_left (''Even G1_L_1'', a)" "\<not> host_left (''Even G1_R_2'', a)" "host_right (''Even G1_R_2'', a)"
  by (simp_all add: host_left_def host_right_def host_names)

text \<open>
  Claim C4, as amended. Step 1, the devices the host reports as connected: a reported
  device whose upper-cased name holds "_L_" or "LEFT" is assigned to Left and not to
  Right, and the last such device is the one Left holds when the scan returns; the same
  for Right and a reported device whose upper-cased name holds "_R_" or "RIGHT" and no
  left pattern. The active scan: when no reported device is named for the left side, the
  first scanned device whose name holds one of the product patterns and "_L_" (or
  "Left") is assigned to Left. Whatever a side holds after the scan is what it held
  before, or a reported device named for that side, or a scanned device whose name is
  set, not empty and holds one of the product patterns "_L_", "_R_", "G1", "Even",
  "LE-": a device with an empty or absent name, or a name with none of these patterns,
  is never assigned to either side. When the host reports a device named for the right
  side, or the scan returns a device with a product pattern that is named for the right
  side and not for the left, Right holds a device named for the right side. (Otherwise
  the arbitration step can assign to a missing side a later device with "_L_" in its
  name, or one with a product pattern and no side pattern.)
\<close>

theorem scan_assignment:
  "(find host_left (rev (reported e w)) = Some h \<longrightarrow>
      left_entry (snd (scan_for_glasses e w)) = host_entry h) \<and>
   (find host_right (rev (reported e w)) = Some h' \<longrightarrow>
      right_entry (snd (scan_for_glasses e w)) = host_entry h') \<and>
   (find host_left (reported e w) = None \<and>
    find (\<lambda>d. is_g1 d \<and> named_left d) (scanned e) = Some d \<longrightarrow>
      left_entry (snd (scan_for_glasses e w)) = entry d) \<and>
   left_entry (snd (scan_for_glasses e w)) \<in>
     insert (left_entry w)
       (host_entry ` {h \<in> set (reported e w). host_left h} \<union> entry ` set (candidates (scanned e))) \<and>
   right_entry (snd (scan_for_glasses e w)) \<in>
     insert (right_entry w)
       (host_entry ` {h \<in> set (reported e w). host_right h} \<union> entry ` set (candidates (scanned e))) \<and>
   ((\<exists>h \<in> set (reported e w). host_right h) \<or>
    (\<exists>d \<in> set (candidates (scanned e)). named_right d \<and> \<not> named_left d) \<longrightarrow>
      right_entry (snd (scan_for_glasses e w)) \<in>
        host_entry ` {h \<in> set (reported e w). host_right h} \<union>
        entry ` {d \<in> set (candidates (scanned e)). named_right d})"
proof -
  let ?w1 = "set_connection_state SCANNING w"
  let ?hs = "reported e w"
  let ?R = "snd (scan_for_glasses e w)"
  let ?HL = "host_entry ` {h \<in> set ?hs. host_left h}"
  let ?HR = "host_entry ` {h \<in> set ?hs. host_right h}"
  obtain lf rf w2 where st: "foldl assign_connected (False, False, ?w1) ?hs = (lf, rf, w2)"
    by (cases "foldl assign_connected (False, False, ?w1) ?hs")
  note a = foldl_assign_sides[OF st]
  have lf: "lf = (\<exists>h \<in> set ?hs. host_left h)" and rf: "rf = (\<exists>h \<in> set ?hs. host_right h)"
    using a by simp_all
  have lh: "find host_left (rev ?hs) = Some h \<Longrightarrow> lf \<and> left_entry w2 = host_entry h" for h
  proof -
    assume fs: "find host_left (rev ?hs) = Some h"
    from find_some_mem[OF fs] have "lf" using lf by auto
    moreover have "left_entry w2 = host_entry h" using a fs by simp
    ultimately show ?thesis by simp
  qed
  have rh: "find host_right (rev ?hs) = Some h \<Longrightarrow> rf \<and> right_entry w2 = host_entry h" for h
  proof -
    assume fs: "find host_right (rev ?hs) = Some h"
    from find_some_mem[OF fs] have "rf" using rf by auto
    moreover have "right_entry w2 = host_entry h" using a fs by simp
    ultimately show ?thesis by simp
  qed
  have lnone: "find host_left ?hs = None \<Longrightarrow> \<not> lf"
    using lf by (auto simp: find_None_iff)
  have l2: "left_entry w2 \<in> insert (left_entry w) ?HL"
  proof (cases "find host_left (rev ?hs)")
    case None
    then show ?thesis using a by (simp add: scan_entries_start)
  next
    case (Some x)
    from find_some_mem[OF Some] have "x \<in> set ?hs" "host_left x" by simp_all
    moreover have "left_entry w2 = host_entry x" using a Some by simp
    ultimately show ?thesis by blast
  qed
  have r2: "right_entry w2 \<in> insert (right_entry w) ?HR"
  proof (cases "find host_right (rev ?hs)")
    case None
    then show ?thesis using a by (simp add: scan_entries_start)
  next
    case (Some x)
    from find_some_mem[OF Some] have "x \<in> set ?hs" "host_right x" by simp_all
    moreover have "right_entry w2 = host_entry x" using a Some by simp
    ultimately show ?thesis by blast
  qed
  have r2f: "rf \<Longrightarrow> right_entry w2 \<in> ?HR"
  proof -
    assume rf
    then have "find host_right (rev ?hs) \<noteq> None" using rf by (auto simp: find_None_iff)
    then obtain x where fs: "find host_right (rev ?hs) = Some x" by auto
    from find_some_mem[OF fs] have "x \<in> set ?hs" "host_right x" by simp_all
    moreover have "right_entry w2 = host_entry x" using a fs by simp
    ultimately show ?thesis by blast
  qed
  have direct: "left_entry ?R = left_entry w2 \<Longrightarrow> right_entry ?R = right_entry w2 \<Longrightarrow>
                (lf \<and> rf) \<or> scanned e = [] \<Longrightarrow> ?thesis"
  proof -
    assume el: "left_entry ?R = left_entry w2" and er: "right_entry ?R = right_entry w2"
      and c: "(lf \<and> rf) \<or> scanned e = []"
    have c3: "\<not> (find host_left ?hs = None \<and> find (\<lambda>d. is_g1 d \<and> named_left d) (scanned e) = Some d)"
    proof
      assume h: "find host_left ?hs = None \<and> find (\<lambda>d. is_g1 d \<and> named_left d) (scanned e) = Some d"
      then have "\<not> lf" using lnone by simp
      moreover from h have "scanned e \<noteq> []" by auto
      ultimately show False using c by simp
    qed
    have c6: "(\<exists>h \<in> set ?hs. host_right h) \<or>
              (\<exists>d \<in> set (candidates (scanned e)). named_right d \<and> \<not> named_left d) \<Longrightarrow> rf"
      using c rf by (auto simp: candidates_def)
    show ?thesis using el er lh[of h] rh[of h'] c3 l2 r2 c6 r2f by auto
  qed
  show ?thesis
  proof (cases "lf \<and> rf")
    case True
    have sc: "scan_for_glasses e w = scan_finish e (lf, rf, w2)"
      using st True by (simp add: scan_for_glasses_def reported_def Let_def)
    show ?thesis
      using direct scan_finish_entries[of e lf rf w2] sc True by simp
  next
    case False
    show ?thesis
    proof (cases "se_discover e")
      case None
      have sc: "?R = set_connection_state DISCONNECTED (emit [EvDiscover] w2)"
        using st False None by (simp add: scan_for_glasses_def reported_def Let_def)
      have "scanned e = []" using None by (simp add: scanned_def)
      then show ?thesis using direct sc by (simp add: scan_entries_start)
    next
      case (Some devices)
      let ?w2' = "emit [EvDiscover] w2"
      have sd: "scanned e = devices" using Some by (simp add: scanned_def)
      obtain g lf3 rf3 w3 where f: "foldl classify_device ([], lf, rf, ?w2') devices = (g, lf3, rf3, w3)"
        by (cases "foldl classify_device ([], lf, rf, ?w2') devices") auto
      obtain lf4 rf4 w4 where ar: "arbitrate g (lf3, rf3, w3) = (lf4, rf4, w4)"
        by (cases "arbitrate g (lf3, rf3, w3)")
      have sc: "scan_for_glasses e w = scan_finish e (lf4, rf4, w4)"
        using st False Some f ar by (simp add: scan_for_glasses_def reported_def Let_def)
      have el: "left_entry ?R = left_entry w4" and er: "right_entry ?R = right_entry w4"
        using scan_finish_entries[of e lf4 rf4 w4] sc by simp_all
      note fe = foldl_classify_entries[OF f]
      note ae = arbitrate_entries[OF ar]
      have g: "g = candidates devices" using fe by simp
      have keepl: "lf \<Longrightarrow> left_entry w4 = left_entry w2"
      proof -
        assume lf
        with f have "foldl classify_device ([], True, rf, ?w2') devices = (g, lf3, rf3, w3)" by simp
        from classify_keeps_left[OF this] have k: "lf3" "left_entry w3 = left_entry ?w2'" by simp_all
        from ar k(1) have "arbitrate g (True, rf3, w3) = (lf4, rf4, w4)" by simp
        from arbitrate_keeps_left[OF this] k(2) show ?thesis by (simp add: scan_entries_start)
      qed
      have keepr: "rf \<Longrightarrow> right_entry w4 = right_entry w2"
      proof -
        assume rf
        with f have "foldl classify_device ([], lf, True, ?w2') devices = (g, lf3, rf3, w3)" by simp
        from classify_keeps_right[OF this] have k: "rf3" "right_entry w3 = right_entry ?w2'" by simp_all
        from ar k(1) have "arbitrate g (lf3, True, w3) = (lf4, rf4, w4)" by simp
        from arbitrate_keeps_right[OF this] k(2) show ?thesis by (simp add: scan_entries_start)
      qed
      have c1: "find host_left (rev ?hs) = Some h \<longrightarrow> left_entry ?R = host_entry h"
        using lh[of h] keepl el by auto
      have c2: "find host_right (rev ?hs) = Some h' \<longrightarrow> right_entry ?R = host_entry h'"
        using rh[of h'] keepr er by auto
      have c3: "find host_left ?hs = None \<and> find (\<lambda>d. is_g1 d \<and> named_left d) (scanned e) = Some d
                  \<longrightarrow> left_entry ?R = entry d"
      proof
        assume h: "find host_left ?hs = None \<and> find (\<lambda>d. is_g1 d \<and> named_left d) (scanned e) = Some d"
        then have nl: "\<not> lf" using lnone by simp
        from h have fd: "find (\<lambda>d. is_g1 d \<and> named_left d) devices = Some d" using sd by simp
        from f nl have "foldl classify_device ([], False, rf, ?w2') devices = (g, lf3, rf3, w3)" by simp
        from classify_first_left[OF fd this] have k: "lf3" "left_entry w3 = entry d" by simp_all
        from ar k(1) have "arbitrate g (True, rf3, w3) = (lf4, rf4, w4)" by simp
        from arbitrate_keeps_left[OF this] k(2) el show "left_entry ?R = entry d" by simp
      qed
      have c4: "left_entry ?R \<in> insert (left_entry w) (?HL \<union> entry ` set (candidates (scanned e)))"
        using el fe ae g l2 sd by (auto simp: scan_entries_start)
      have c5: "right_entry ?R \<in> insert (right_entry w) (?HR \<union> entry ` set (candidates (scanned e)))"
        using er fe ae g r2 sd by (auto simp: scan_entries_start)
      have c6: "(\<exists>h \<in> set ?hs. host_right h) \<or>
                (\<exists>d \<in> set (candidates (scanned e)). named_right d \<and> \<not> named_left d) \<longrightarrow>
                right_entry ?R \<in> ?HR \<union> entry ` {d \<in> set (candidates (scanned e)). named_right d}"
      proof
        assume h: "(\<exists>h \<in> set ?hs. host_right h) \<or>
                (\<exists>d \<in> set (candidates (scanned e)). named_right d \<and> \<not> named_left d)"
        show "right_entry ?R \<in> ?HR \<union> entry ` {d \<in> set (candidates (scanned e)). named_right d}"
        proof (cases rf)
          case True
          then show ?thesis using keepr r2f er by simp
        next
          case nrf: False
          then have ex: "\<exists>d \<in> set (candidates devices). named_right d \<and> \<not> named_left d"
            using h rf sd by simp
          from f nrf have "foldl classify_device ([], lf, False, ?w2') devices = (g, lf3, rf3, w3)" by simp
          from classify_right[OF this] ex
          have k: "rf3" "right_entry w3 \<in> entry ` {d \<in> set (candidates devices). named_right d}"
            by simp_all
          from ar k(1) have "arbitrate g (lf3, True, w3) = (lf4, rf4, w4)" by simp
          from arbitrate_keeps_right[OF this] k(2) er sd show ?thesis by simp
        qed
      qed
      show ?thesis using c1 c2 c3 c4 c5 c6 by blast
    qed
  qed
qed

theorem scan_assignment_witness:
  "find host_left (rev (reported left_listed paired_world)) = Some (''Even G1_L_1'', Some ''A'') \<and>
   left_entry (snd (scan_for_glasses left_listed paired_world)) = (Some ''A'', Some ''Even G1_L_1'') \<and>
   find host_right (rev (reported host_only paired_world)) = Some (''Even G1_R_2'', Some ''B'') \<and>
   right_entry (snd (scan_for_glasses host_only paired_world)) = (Some ''B'', Some ''Even G1_R_2'') \<and>
   find host_left (reported two_lefts blank_world) = None \<and>
   find (\<lambda>d. is_g1 d \<and> named_left d) (scanned two_lefts)
     = Some \<lparr>d_name = Some ''G1_L_1'', d_address = ''A''\<rparr> \<and>
   left_entry (snd (scan_for_glasses two_lefts blank_world)) = (Some ''A'', Some ''G1_L_1'') \<and>
   (\<exists>d \<in> set (candidates (scanned left_listed)). named_right d \<and> \<not> named_left d) \<and>
   right_entry (snd (scan_for_glasses left_listed paired_world)) = (Some ''D'', Some ''G1_R_2'')"
proof -
  have 1: "find host_left (rev (reported left_listed paired_world)) = Some (''Even G1_L_1'', Some ''A'')"
    by (simp add: left_listed_reported host_sides)
  have 2: "find host_right (rev (reported host_only paired_world)) = Some (''Even G1_R_2'', Some ''B'')"
    by (simp add: host_only_reported host_sides)
  have 3: "find host_left (reported two_lefts blank_world) = None"
    by (simp add: reported_def two_lefts_def get_windows_connected_g1_devices_def)
  have 4: "find (\<lambda>d. is_g1 d \<and> named_left d) (scanned two_lefts)
     = Some \<lparr>d_name = Some ''G1_L_1'', d_address = ''A''\<rparr>"
    by (simp add: scanned_def two_lefts_def is_g1_def named_left_def g1_patterns_def str_of_def)
  have c: "candidates (scanned left_listed)
             = [\<lparr>d_name = Some ''G1_L_9'', d_address = ''C''\<rparr>, \<lparr>d_name = Some ''G1_R_2'', d_address = ''D''\<rparr>]"
    by (simp add: candidates_def scanned_def left_listed_def is_g1_def g1_patterns_def)
  have n: "named_left \<lparr>d_name = Some ''G1_L_9'', d_address = ''C''\<rparr>"
      "\<not> named_right \<lparr>d_name = Some ''G1_L_9'', d_address = ''C''\<rparr>"
      "named_right \<lparr>d_name = Some ''G1_R_2'', d_address = ''D''\<rparr>"
      "\<not> named_left \<lparr>d_name = Some ''G1_R_2'', d_address = ''D''\<rparr>"
    by (simp_all add: named_left_def named_right_def str_of_def)
  have 5: "\<exists>d \<in> set (candidates (scanned left_listed)). named_right d \<and> \<not> named_left d"
    unfolding c using n by simp
  have hr: "{h \<in> set (reported left_listed paired_world). host_right h} = {}"
    by (simp add: left_listed_reported host_right_def host_sides)
  have nr: "{d \<in> set (candidates (scanned left_listed)). named_right d}
              = {\<lparr>d_name = Some ''G1_R_2'', d_address = ''D''\<rparr>}"
    unfolding c using n by auto
  note A = scan_assignment[of left_listed paired_world "(''Even G1_L_1'', Some ''A'')"]
  note B = scan_assignment[where e=two_lefts and w=blank_world
             and d="\<lparr>d_name = Some ''G1_L_1'', d_address = ''A''\<rparr>"]
  note C = scan_assignment[where e=host_only and w=paired_world and h'="(''Even G1_R_2'', Some ''B'')"]
  have a1: "left_entry (snd (scan_for_glasses left_listed paired_world)) = (Some ''A'', Some ''Even G1_L_1'')"
    using A 1 by (simp add: host_entry_def)
  have a6: "right_entry (snd (scan_for_glasses left_listed paired_world)) = (Some ''D'', Some ''G1_R_2'')"
    using A 5 hr nr by (simp add: entry_def)
  have b3: "left_entry (snd (scan_for_glasses two_lefts blank_world)) = (Some ''A'', Some ''G1_L_1'')"
    using B 3 4 by (simp add: entry_def)
  have c2: "right_entry (snd (scan_for_glasses host_only paired_world)) = (Some ''B'', Some ''Even G1_R_2'')"
    using C 2 by (simp add: host_entry_def)
  show ?thesis using 1 2 3 4 5 a1 a6 b3 c2 by simp
qed


text \<open>
  Claim C4 as stated fails. Of two scanned devices named with "_L_", the first is
  assigned to Left and the arbitration step assigns the second to Right; and a device
  named "Even G1", which matches neither side's pattern, is assigned to Left by the
  arbitration step (the unnamed device before it is not).
\<close>

theorem scan_assignment_counterexample:
  "fst (scan_for_glasses two_lefts blank_world) \<and>
   left_entry (snd (scan_for_glasses two_lefts blank_world)) = (Some ''A'', Some ''G1_L_1'') \<and>
   right_entry (snd (scan_for_glasses two_lefts blank_world)) = (Some ''B'', Some ''G1_L_2'') \<and>
   contains ''_L_'' ''G1_L_2'' \<and>
   left_entry (snd (scan_for_glasses one_plain blank_world)) = (Some ''C'', Some ''Even G1'') \<and>
   \<not> contains ''_L_'' ''Even G1'' \<and> \<not> contains ''Left'' ''Even G1'' \<and>
   \<not> contains ''_R_'' ''Even G1'' \<and> \<not> contains ''Right'' ''Even G1''"
proof -
  have 1: "scan_for_glasses two_lefts blank_world =
     (True, save (emit [EvDiscover] (set_connection_state SCANNING blank_world)
        \<lparr>left_address := Some ''A'', left_name := Some ''G1_L_1'',
         right_address := Some ''B'', right_name := Some ''G1_L_2''\<rparr>))"
    by (simp add: scan_defs two_lefts_def blank_world_def init_def world_ops str_of_def Let_def)
  have 2: "snd (scan_for_glasses one_plain blank_world) =
     set_connection_state DISCONNECTED (emit [EvDiscover] (set_connection_state SCANNING blank_world)
        \<lparr>left_address := Some ''C'', left_name := Some ''Even G1''\<rparr>)"
    by (simp add: scan_defs one_plain_def blank_world_def init_def world_ops str_of_def Let_def)
  show ?thesis
    unfolding 1 2 by (simp add: left_entry_def right_entry_def world_ops)
qed

section \<open>The result of a scan\<close>

text \<open>
  A scan that returns true has saved the config as it stands; a scan that meets no
  assignable device (none from the host, no candidate in the list) returns false, ends
  \<open>DISCONNECTED\<close> and leaves both sides' addresses and names and the saved config alone;
  and when every device the host reports carries an address, as every scanned device
  does, a scan that returns true has resolved both sides to an address.
\<close>

lemma scan_true_saved:
  "scan_for_glasses e w = (True, w') \<Longrightarrow>
     persisted w' = (left_address w', right_address w', left_name w', right_name w')"
proof -
  have f: "\<And>st. scan_finish e st = (True, w') \<Longrightarrow>
     persisted w' = (left_address w', right_address w', left_name w', right_name w')"
  proof -
    fix st assume a: "scan_finish e st = (True, w')"
    obtain lf rf w0 where st: "st = (lf, rf, w0)" by (cases st) auto
    show "persisted w' = (left_address w', right_address w', left_name w', right_name w')"
      using a st by (auto simp: scan_finish_def world_ops split: if_splits option.splits)
  qed
  assume a: "scan_for_glasses e w = (True, w')"
  show ?thesis
    using a f
    by (auto simp: scan_for_glasses_def Let_def split: prod.splits if_splits option.splits)
qed

lemma foldl_classify_none: "candidates ds = [] \<Longrightarrow> foldl classify_device st ds = st"
proof (induction ds arbitrary: st)
  case Nil
  show ?case by simp
next
  case (Cons d ds)
  then have n: "\<not> is_g1 d" "candidates ds = []"
    by (auto simp: candidates_def split: if_splits)
  have "classify_device st d = st" using n(1) by (cases st) (simp add: classify_device_def)
  then show ?case using Cons.IH[OF n(2)] by simp
qed

lemma scan_nothing_found:
  assumes "get_windows_connected_g1_devices (se_ps e) (se_wmi e) (set_connection_state SCANNING w) = []"
    and "se_discover e = Some devices" and "candidates devices = []"
  shows "scan_for_glasses e w =
           (False, set_connection_state DISCONNECTED (emit [EvDiscover] (set_connection_state SCANNING w)))"
  using assms
  by (simp add: scan_for_glasses_def Let_def foldl_classify_none arbitrate_def scan_finish_def)

lemma scan_nothing_found_store:
  assumes "get_windows_connected_g1_devices (se_ps e) (se_wmi e) (set_connection_state SCANNING w) = []"
    and "se_discover e = Some devices" and "candidates devices = []"
  shows "fst (scan_for_glasses e w) = False \<and>
     connection_state (snd (scan_for_glasses e w)) = DISCONNECTED \<and>
     left_entry (snd (scan_for_glasses e w)) = left_entry w \<and>
     right_entry (snd (scan_for_glasses e w)) = right_entry w \<and>
     persisted (snd (scan_for_glasses e w)) = persisted w"
  unfolding scan_nothing_found[OF assms]
  by (simp add: world_ops left_entry_def right_entry_def)


lemma assign_connected_resolved:
  "resolved st \<Longrightarrow> truthy (snd h) \<Longrightarrow> resolved (assign_connected st h)"
  by (cases st; cases h) (auto simp: resolved_def assign_connected_def)

lemma foldl_assign_resolved:
  "resolved st \<Longrightarrow> \<forall>h \<in> set hs. truthy (snd h) \<Longrightarrow> resolved (foldl assign_connected st hs)"
  by (induction hs arbitrary: st) (simp_all add: assign_connected_resolved)

lemma classify_device_resolved:
  "resolved (snd st) \<Longrightarrow> d_address d \<noteq> [] \<Longrightarrow> resolved (snd (classify_device st d))"
  by (cases st) (auto simp: resolved_def classify_device_def assign_left_def assign_right_def truthy_def)

lemma foldl_classify_resolved:
  "resolved (snd st) \<Longrightarrow> \<forall>d \<in> set ds. d_address d \<noteq> [] \<Longrightarrow>
     resolved (snd (foldl classify_device st ds))"
  by (induction ds arbitrary: st) (simp_all add: classify_device_resolved)

lemma arbitrate_resolved:
  assumes "resolved st" "\<forall>d \<in> set g. d_address d \<noteq> []"
  shows "resolved (arbitrate g st)"
proof -
  obtain lf rf w where st: "st = (lf, rf, w)" by (cases st) auto
  let ?av = "filter (\<lambda>d. Some (d_address d) \<notin> set [left_address w, right_address w]) g"
  have av: "\<forall>d \<in> set ?av. d_address d \<noteq> []" using assms(2) by auto
  show ?thesis
  proof (cases ?av)
    case Nil
    then show ?thesis using assms(1) st by (auto simp: arbitrate_def Let_def resolved_def)
  next
    case (Cons d rest)
    then have d: "d_address d \<noteq> []" using av by (metis list.set_intros(1))
    have r: "\<forall>x \<in> set rest. d_address x \<noteq> []" using av Cons by (metis list.set_intros(2))
    show ?thesis
      using assms(1) st Cons d r
      by (auto simp: arbitrate_def Let_def resolved_def assign_left_def assign_right_def truthy_def
            split: list.splits)
  qed
qed

lemma scan_finish_resolved:
  "resolved st \<Longrightarrow> scan_finish e st = (True, w') \<Longrightarrow>
     truthy (left_address w') \<and> truthy (right_address w')"
  by (cases st) (auto simp: resolved_def scan_finish_def world_ops split: if_splits option.splits)

lemma scan_true_resolved:
  assumes h: "\<forall>h \<in> set (get_windows_connected_g1_devices (se_ps e) (se_wmi e)
                 (set_connection_state SCANNING w)). truthy (snd h)"
    and d: "\<forall>ds. se_discover e = Some ds \<longrightarrow> (\<forall>d \<in> set ds. d_address d \<noteq> [])"
    and t: "scan_for_glasses e w = (True, w')"
  shows "truthy (left_address w') \<and> truthy (right_address w')"
proof -
  let ?w1 = "set_connection_state SCANNING w"
  let ?st = "foldl assign_connected (False, False, ?w1)
               (get_windows_connected_g1_devices (se_ps e) (se_wmi e) ?w1)"
  have r0: "resolved (False, False, ?w1)" by (simp add: resolved_def)
  have r1: "resolved ?st" by (rule foldl_assign_resolved[OF r0 h])
  obtain lf rf w2 where st: "?st = (lf, rf, w2)" by (cases ?st)
  show ?thesis
  proof (cases "lf \<and> rf")
    case True
    then have "scan_finish e ?st = (True, w')" using t st by (simp add: scan_for_glasses_def Let_def)
    from scan_finish_resolved[OF r1 this] show ?thesis .
  next
    case False
    show ?thesis
    proof (cases "se_discover e")
      case None
      then show ?thesis using t st False by (auto simp: scan_for_glasses_def Let_def)
    next
      case (Some devices)
      let ?s3 = "([], lf, rf, emit [EvDiscover] w2)"
      have r3: "resolved (snd ?s3)" using r1 st by (simp add: resolved_def emit_def)
      have dv: "\<forall>d \<in> set devices. d_address d \<noteq> []" using d Some by simp
      obtain g st4 where f: "foldl classify_device ?s3 devices = (g, st4)"
        by (cases "foldl classify_device ?s3 devices")
      have r4: "resolved st4" using foldl_classify_resolved[OF r3 dv] f by simp
      obtain lf4 rf4 w4 where s4: "st4 = (lf4, rf4, w4)" by (cases st4) auto
      have g: "g = candidates devices" using foldl_classify_entries[of "[]" lf rf "emit [EvDiscover] w2" devices g lf4 rf4 w4] f s4
        by simp
      have gd: "\<forall>d \<in> set g. d_address d \<noteq> []" using g dv by (simp add: candidates_def)
      have r5: "resolved (arbitrate g st4)" by (rule arbitrate_resolved[OF r4 gd])
      have "scan_finish e (arbitrate g st4) = (True, w')"
        using t st False Some f by (simp add: scan_for_glasses_def Let_def)
      from scan_finish_resolved[OF r5 this] show ?thesis .
    qed
  qed
qed

text \<open>
  Claim C5 fails on the code. When no address is stored (as after Strategy 3 or 4 of
  \<open>connect_to_glasses\<close> cleared them) and the host lists both glasses by name, the
  first query drops them for want of an address, the WMI query appends them with the
  stored address, which is \<open>None\<close>, and the scan marks both sides as found: it returns
  true and saves a config in which neither side has an address.
\<close>

theorem scan_true_without_addresses:
  "fst (scan_for_glasses host_only blank_world) \<and>
   left_address (snd (scan_for_glasses host_only blank_world)) = None \<and>
   right_address (snd (scan_for_glasses host_only blank_world)) = None \<and>
   persisted (snd (scan_for_glasses host_only blank_world))
     = (None, None, Some ''Even G1_L_1'', Some ''Even G1_R_2'')"
  by (simp add: host_only_scan save_def emit_def)

section \<open>Stored addresses across \<open>connect_to_glasses\<close>\<close>

lemma nothing_found_scan:
  "scan_for_glasses nothing_found w =
     (False, set_connection_state DISCONNECTED (emit [EvDiscover] (set_connection_state SCANNING w)))"
  by (rule scan_nothing_found[where devices="[]"])
     (simp_all add: nothing_found_def get_windows_connected_g1_devices_def candidates_def)

lemma link_down_attempt:
  "reconnect_attempts w = 1 \<Longrightarrow> get_address sd w = Some address \<Longrightarrow> address \<noteq> [] \<Longrightarrow>
   connect_glass sd (\<lambda>_. link_down) w =
     (False, emit [EvAttempt sd 0, EvOpen sd address (connection_timeout w), EvClassified Timeout] w)"
  by (simp add: attempt_steps link_down_def emit_def)

lemma link_up_attempt:
  "reconnect_attempts w = 1 \<Longrightarrow> get_address sd w = Some address \<Longrightarrow> address \<noteq> [] \<Longrightarrow>
   connect_glass sd (\<lambda>_. link_up) w =
     (True, emit [EvNotify sd]
        (set_client sd (Some \<lparr>c_address = address, is_connected = True\<rparr>)
           (emit [EvAttempt sd 0, EvOpen sd address (connection_timeout w)] w)))"
  by (cases sd) (simp_all add: attempt_steps link_up_def emit_def set_client_def)

text \<open>
  After Strategy 3 has cleared the addresses and its scan has failed, the config in
  memory holds the old addresses again, but not the saved config: it was saved after
  the clearing and not after the restoring.
\<close>

lemma address_restored_in_memory_only:
  "left_address (snd (connect_to_glasses all_quiet paired_world)) = Some ''A'' \<and>
   right_address (snd (connect_to_glasses all_quiet paired_world)) = Some ''B'' \<and>
   persisted (snd (connect_to_glasses all_quiet paired_world)) = (None, None, None, None)"
  by (simp add: connect_defs all_quiet_def paired_world_def init_def nothing_found_scan
        link_down_attempt link_up_attempt world_ops truthy_def str_of_def Let_def)

text \<open>
  Claim C6 fails on the code. With both addresses stored, the left link opening and the
  right one not, Strategy 4 clears and saves the addresses, its scan finds nothing, and
  \<open>connect_to_glasses\<close> returns false with both addresses gone, in memory and in the
  saved config: Strategy 4 has no counterpart of Strategy 3's restoring.
\<close>

theorem addresses_lost_in_strategy4:
  "left_address paired_world = Some ''A'' \<and> right_address paired_world = Some ''B'' \<and>
   fst (connect_to_glasses (all_quiet\<lparr>ce_s1_left := (\<lambda>_. link_up)\<rparr>) paired_world) = False \<and>
   left_address (snd (connect_to_glasses (all_quiet\<lparr>ce_s1_left := (\<lambda>_. link_up)\<rparr>) paired_world)) = None \<and>
   right_address (snd (connect_to_glasses (all_quiet\<lparr>ce_s1_left := (\<lambda>_. link_up)\<rparr>) paired_world)) = None \<and>
   persisted (snd (connect_to_glasses (all_quiet\<lparr>ce_s1_left := (\<lambda>_. link_up)\<rparr>) paired_world))
     = (None, None, None, None)"
proof -
  show ?thesis
    by (simp add: connect_defs all_quiet_def paired_world_def init_def nothing_found_scan
          link_down_attempt link_up_attempt world_ops truthy_def str_of_def Let_def)
qed

section \<open>One side connected\<close>

lemma get_client_simps:
  "get_client sd' (set_client sd c w) = (if sd' = sd then c else get_client sd' w)"
  "get_client sd' (emit evs w) = get_client sd' w"
  by (cases sd; cases sd'; simp add: get_client_def set_client_def emit_def)+

lemma after_open_linked:
  "a_notify a = None \<Longrightarrow>
   linked sd address (fst (after_open sd address a c w) = Succeeded) w (snd (after_open sd address a c w))"
  by (auto simp: after_open_def linked_def Let_def get_client_simps split: prod.splits option.splits)

lemma attempt_body_linked:
  "a_notify a = None \<Longrightarrow>
   linked sd address (fst (attempt_body sd address a w) = Succeeded) w (snd (attempt_body sd address a w))"
proof -
  assume n: "a_notify a = None"
  have e: "\<And>c w0. (\<forall>sd'. get_client sd' w0 = get_client sd' w) \<Longrightarrow>
     linked sd address (fst (after_open sd address a c w0) = Succeeded) w (snd (after_open sd address a c w0))"
    using after_open_linked[OF n] by (simp add: linked_def)
  show ?thesis
    by (auto simp: attempt_body_def Let_def get_client_simps linked_def[of _ _ False]
          intro!: e split: open_result.splits)
qed


lemma retry_sleep_clients: "get_client sd' (retry_sleep attempt w) = get_client sd' w"
  by (simp add: retry_sleep_def get_client_simps)

lemma connect_attempts_linked:
  "\<forall>n. a_notify (env n) = None \<Longrightarrow>
   linked sd address (fst (connect_attempts sd address env attempt n w)) w
     (snd (connect_attempts sd address env attempt n w))"
proof (induction n arbitrary: attempt w)
  case 0
  show ?case by (simp add: linked_def)
next
  case (Suc n)
  let ?w0 = "emit [EvAttempt sd attempt] w"
  obtain out w1 where b: "attempt_body sd address (env attempt) ?w0 = (out, w1)"
    by (cases "attempt_body sd address (env attempt) ?w0")
  have n: "a_notify (env attempt) = None" using Suc.prems by simp
  have l1: "linked sd address (out = Succeeded) w w1"
    using attempt_body_linked[OF n, of sd address ?w0] b by (simp add: linked_def get_client_simps)
  show ?case
  proof (cases out)
    case Succeeded
    then show ?thesis using b l1 by simp
  next
    case Failed
    let ?w2 = "retry_sleep attempt w1"
    have same: "\<forall>sd'. get_client sd' ?w2 = get_client sd' w"
      using l1 Failed by (simp add: linked_def retry_sleep_clients)
    from Suc.IH[OF Suc.prems, of "Suc attempt" ?w2] same
    show ?thesis using b Failed by (simp add: linked_def)
  next
    case (Raised msg)
    let ?w2 = "retry_sleep attempt (emit [EvClassified (classify msg)] w1)"
    have same: "\<forall>sd'. get_client sd' ?w2 = get_client sd' w"
      using l1 Raised by (simp add: linked_def retry_sleep_clients get_client_simps)
    from Suc.IH[OF Suc.prems, of "Suc attempt" ?w2] same
    show ?thesis using b Raised by (simp add: linked_def)
  qed
qed

text \<open>A call of \<open>_connect_glass\<close> in which \<open>start_notifications\<close> never raises.\<close>

lemma connect_glass_clients:
  assumes "\<forall>n. a_notify (env n) = None" "connect_glass sd env w = (ok, w')"
  shows "get_client sd w' = (if ok then get_client sd w' else get_client sd w)"
    and "ok \<Longrightarrow> client_connected (get_client sd w')"
    and "\<not> ok \<Longrightarrow> get_client sd w' = get_client sd w"
    and "sd' \<noteq> sd \<Longrightarrow> get_client sd' w' = get_client sd' w"
proof -
  have k: "(ok \<longrightarrow> client_connected (get_client sd w')) \<and> (\<not> ok \<longrightarrow> get_client sd w' = get_client sd w) \<and>
           (sd' \<noteq> sd \<longrightarrow> get_client sd' w' = get_client sd' w)"
  proof (cases "get_address sd w")
    case None
    then show ?thesis using assms(2) by (auto simp: connect_glass_def)
  next
    case (Some address)
    show ?thesis
    proof (cases "address = []")
      case True
      then show ?thesis using assms(2) Some by (auto simp: connect_glass_def)
    next
      case False
      then have c: "connect_attempts sd address env 0 (nat (reconnect_attempts w)) w = (ok, w')"
        using assms(2) Some by (simp add: connect_glass_def)
      from connect_attempts_linked[OF assms(1), of sd address 0 "nat (reconnect_attempts w)" w] c
      have "linked sd address ok w w'" by simp
      then show ?thesis by (auto simp: linked_def client_connected_def)
    qed
  qed
  show "get_client sd w' = (if ok then get_client sd w' else get_client sd w)" using k by simp
  show "ok \<Longrightarrow> client_connected (get_client sd w')" using k by simp
  show "\<not> ok \<Longrightarrow> get_client sd w' = get_client sd w" using k by simp
  show "sd' \<noteq> sd \<Longrightarrow> get_client sd' w' = get_client sd' w" using k by simp
qed

lemma connect_both_in_step:
  assumes "\<forall>n. a_notify (el n) = None" "\<forall>n. a_notify (er n) = None"
    and "left_client w = None" "right_client w = None"
  shows "in_step (connect_both el er w)"
proof -
  obtain l w1 where 1: "connect_glass SLeft el w = (l, w1)" by (cases "connect_glass SLeft el w")
  obtain r w2 where 2: "connect_glass SRight er w1 = (r, w2)" by (cases "connect_glass SRight er w1")
  note a = connect_glass_clients(2,3)[OF assms(1) 1] connect_glass_clients(4)[OF assms(1) 1, of SRight]
  note b = connect_glass_clients(2,3)[OF assms(2) 2] connect_glass_clients(4)[OF assms(2) 2, of SLeft]
  have "in_step (l, r, w2)"
    using a b assms(3,4)
    by (cases l; cases r) (auto simp: in_step_def get_client_def client_connected_def split: option.splits)
  then show ?thesis using 1 2 by (simp add: connect_both_def)
qed


lemma in_step_loosely: "in_step st \<Longrightarrow> loosely_in_step st"
  by (cases st) (auto simp: in_step_def loosely_in_step_def)

lemma scan_clients:
  "scan_for_glasses e w = (b, w') \<Longrightarrow> left_client w' = left_client w \<and> right_client w' = right_client w"
  using scan_state(1)[of e w b w'] by (simp add: session_def)

lemma strategy01_in_step:
  assumes "nothing_raises ce" "left_client w = None" "right_client w = None"
  shows "in_step (strategy1 ce (strategy0 (set_connection_state CONNECTING w)))"
proof -
  let ?w0 = "strategy0 (set_connection_state CONNECTING w)"
  have c: "left_client ?w0 = None" "right_client ?w0 = None"
    using assms(2,3) by (simp_all add: strategy0_def Let_def set_connection_state_def)
  have n: "\<forall>n. a_notify (ce_s1_left ce n) = None" "\<forall>n. a_notify (ce_s1_right ce n) = None"
    using assms(1) by (simp_all add: nothing_raises_def)
  show ?thesis
    using connect_both_in_step[OF n c] c by (simp add: strategy1_def in_step_def)
qed

lemma strategy2_in_step:
  assumes "nothing_raises ce" "in_step st"
  shows "\<exists>st'. strategy2 ce st = Inr st' \<and> in_step st'"
proof -
  obtain l r w where st: "st = (l, r, w)" by (cases st) auto
  show ?thesis
  proof (cases "\<not> l \<and> \<not> r")
    case False
    then show ?thesis using assms(2) st by (auto simp: strategy2_def)
  next
    case True
    then have c: "left_client (emit [EvPairing] w) = None" "right_client (emit [EvPairing] w) = None"
      using assms(2) st by (simp_all add: in_step_def emit_def)
    have n: "\<forall>n. a_notify (ce_s2_left ce n) = None" "\<forall>n. a_notify (ce_s2_right ce n) = None"
      using assms(1) by (simp_all add: nothing_raises_def)
    obtain paired where p: "ce_pairing ce = Returns paired"
      using assms(1) by (cases "ce_pairing ce") (auto simp: nothing_raises_def)
    show ?thesis
    proof (cases paired)
      case False
      have "in_step (l, r, emit [EvPairing] w)" using assms(2) st by (simp add: in_step_def emit_def)
      then show ?thesis using True st p False by (simp add: strategy2_def)
    next
      case pt: True
      show ?thesis using True st p pt connect_both_in_step[OF n c] by (simp add: strategy2_def)
    qed
  qed
qed

lemma strategy3_in_step:
  assumes "nothing_raises ce" "in_step st"
  shows "\<exists>st'. strategy3 ce st = Inr st' \<and> in_step st'"
proof -
  obtain l r w where st: "st = (l, r, w)" by (cases st) auto
  show ?thesis
  proof (cases "\<not> l \<and> \<not> r")
    case False
    then show ?thesis using assms(2) st by (auto simp: strategy3_def)
  next
    case True
    let ?w1 = "save (w\<lparr>left_address := None, right_address := None\<rparr>)"
    have c1: "left_client ?w1 = None" "right_client ?w1 = None"
      using True assms(2) st by (simp_all add: in_step_def save_def emit_def)
    obtain b w2 where sc: "scan_for_glasses (ce_scan3 ce) ?w1 = (b, w2)"
      by (cases "scan_for_glasses (ce_scan3 ce) ?w1")
    have c2: "left_client w2 = None" "right_client w2 = None"
      using scan_clients[OF sc] c1 by simp_all
    have n: "\<forall>n. a_notify (ce_s3_left ce n) = None" "\<forall>n. a_notify (ce_s3_right ce n) = None"
      using assms(1) by (simp_all add: nothing_raises_def)
    have sv: "ce_save3 ce = None" using assms(1) by (simp add: nothing_raises_def)
    show ?thesis
    proof (cases b)
      case False
      have "in_step (l, r, w2\<lparr>left_address := left_address w, right_address := right_address w\<rparr>)"
        using True c2 by (simp add: in_step_def)
      then show ?thesis using True st sv sc False by (simp add: strategy3_def Let_def)
    next
      case bt: True
      show ?thesis using True st sv sc bt connect_both_in_step[OF n c2]
        by (simp add: strategy3_def Let_def)
    qed
  qed
qed

lemma strategy4_in_step:
  assumes "nothing_raises ce" "in_step st"
  shows "\<exists>st'. strategy4 ce st = Inr st' \<and> loosely_in_step st'"
proof -
  obtain l r w where st: "st = (l, r, w)" by (cases st) auto
  show ?thesis
  proof (cases "(l \<and> \<not> r) \<or> (r \<and> \<not> l)")
    case False
    then show ?thesis using in_step_loosely[OF assms(2)] st by (auto simp: strategy4_def)
  next
    case True
    let ?w1 = "save (w\<lparr>left_address := None, right_address := None\<rparr>)"
    have nr: "ce_save4 ce = None" "ce_close4_left ce = None" "ce_close4_right ce = None"
      using assms(1) by (simp_all add: nothing_raises_def)
    obtain w2 where k2: "close_side SLeft l None ?w1 = Inr w2" "left_client w2 = None"
        "right_client w2 = right_client w"
      using assms(2) st
      by (auto simp: close_side_def in_step_def world_ops)
    obtain w3 where k3: "close_side SRight r None w2 = Inr w3" "left_client w3 = None"
        "right_client w3 = None"
      using assms(2) st k2(2,3)
      by (auto simp: close_side_def in_step_def world_ops)
    obtain b w4 where sc: "scan_for_glasses (ce_scan4 ce) w3 = (b, w4)"
      by (cases "scan_for_glasses (ce_scan4 ce) w3")
    have c4: "left_client w4 = None" "right_client w4 = None"
      using scan_clients[OF sc] k3 by simp_all
    have n: "\<forall>n. a_notify (ce_s4_left ce n) = None" "\<forall>n. a_notify (ce_s4_right ce n) = None"
      using assms(1) by (simp_all add: nothing_raises_def)
    have s4: "strategy4 ce st =
        (if b then Inr (connect_both (ce_s4_left ce) (ce_s4_right ce) w4) else Inr (l, r, w4))"
      using True st nr k2(1) k3(1) sc by (cases b) (simp_all add: strategy4_def Let_def)
    show ?thesis
    proof (cases b)
      case True
      then show ?thesis using s4 in_step_loosely[OF connect_both_in_step[OF n c4]] by simp
    next
      case False
      have "loosely_in_step (l, r, w4)" using c4 \<open>(l \<and> \<not> r) \<or> (r \<and> \<not> l)\<close>
        by (auto simp: loosely_in_step_def)
      then show ?thesis using s4 False by simp
    qed
  qed
qed

lemma evaluate_both_or_neither:
  assumes "nothing_raises ce" "loosely_in_step st"
  shows "\<exists>res. evaluate ce st = Inr res \<and> both_or_neither res"
proof -
  obtain l r w where st: "st = (l, r, w)" by (cases st) auto
  have nr: "ce_start ce = None" "ce_close_left ce = None" "ce_close_right ce = None"
    using assms(1) by (simp_all add: nothing_raises_def)
  show ?thesis
  proof (cases "l \<and> r")
    case True
    then show ?thesis using assms(2) st nr
      by (auto simp: evaluate_def loosely_in_step_def both_or_neither_def world_ops)
  next
    case False
    let ?w1 = "close_partial SLeft l None w"
    let ?w2 = "close_partial SRight r None ?w1"
    have 1: "left_client ?w1 = None" "right_client ?w1 = right_client w"
      using assms(2) st by (auto simp: close_partial_def loosely_in_step_def world_ops)
    have 2: "left_client ?w2 = None" "right_client ?w2 = None"
      using assms(2) st 1 by (auto simp: close_partial_def loosely_in_step_def world_ops)
    have "both_or_neither (False, set_connection_state DISCONNECTED ?w2)"
      using 2 by (simp add: both_or_neither_def set_connection_state_def)
    moreover have "evaluate ce st = Inr (False, set_connection_state DISCONNECTED ?w2)"
      using False st nr by (auto simp: evaluate_def)
    ultimately show ?thesis by simp
  qed
qed

lemma connect_both_or_neither:
  assumes "nothing_raises ce" "left_client w = None" "right_client w = None"
  shows "both_or_neither (connect_to_glasses ce w)"
proof -
  note i1 = strategy01_in_step[OF assms]
  from strategy2_in_step[OF assms(1) i1] obtain st2 where
    s2: "strategy2 ce (strategy1 ce (strategy0 (set_connection_state CONNECTING w))) = Inr st2"
    and i2: "in_step st2" by blast
  from strategy3_in_step[OF assms(1) i2] obtain st3 where
    s3: "strategy3 ce st2 = Inr st3" and i3: "in_step st3" by blast
  from strategy4_in_step[OF assms(1) i3] obtain st4 where
    s4: "strategy4 ce st3 = Inr st4" and i4: "loosely_in_step st4" by blast
  from evaluate_both_or_neither[OF assms(1) i4] obtain res where
    e: "evaluate ce st4 = Inr res" and b: "both_or_neither res" by blast
  have "connect_to_glasses ce w = res"
    using s2 s3 s4 e by (simp add: connect_to_glasses_def connect_body_def on_normal_def)
  then show ?thesis using b by simp
qed

text \<open>
  So when no collaborator call raises and no client is held at the start,
  \<open>connect_to_glasses\<close> ends with both clients connected and the state \<open>CONNECTED\<close>, or
  with no client and the state \<open>DISCONNECTED\<close>.
\<close>

text \<open>
  Claim C1 fails on the code. With both addresses stored, the left link opening and the
  right one not, Strategy 4 disconnects the left client outside any \<open>try\<close> of its own;
  when that \<open>disconnect()\<close> raises, the handler of the outer \<open>try\<close> sets the state to
  \<open>DISCONNECTED\<close> and returns false, and the left client is still held, connected, with
  no client on the right.
\<close>

theorem one_side_left_connected:
  "left_client paired_world = None \<and> right_client paired_world = None \<and>
   fst (connect_to_glasses
          (all_quiet\<lparr>ce_s1_left := (\<lambda>_. link_up), ce_close4_left := Some ''disconnect failed''\<rparr>)
          paired_world) = False \<and>
   connection_state (snd (connect_to_glasses
          (all_quiet\<lparr>ce_s1_left := (\<lambda>_. link_up), ce_close4_left := Some ''disconnect failed''\<rparr>)
          paired_world)) = DISCONNECTED \<and>
   left_client (snd (connect_to_glasses
          (all_quiet\<lparr>ce_s1_left := (\<lambda>_. link_up), ce_close4_left := Some ''disconnect failed''\<rparr>)
          paired_world)) = Some \<lparr>c_address = ''A'', is_connected = True\<rparr> \<and>
   right_client (snd (connect_to_glasses
          (all_quiet\<lparr>ce_s1_left := (\<lambda>_. link_up), ce_close4_left := Some ''disconnect failed''\<rparr>)
          paired_world)) = None"
  by (simp add: connect_defs all_quiet_def paired_world_def init_def nothing_found_scan
        link_down_attempt link_up_attempt world_ops truthy_def str_of_def Let_def)

end
